theory Spec2Isabelle
  imports Complex_Main "HOL-Library.Word" "HOL-Library.Multiset" "HOL-Library.AList"
    "HOL-Library.List_Lexorder" "HOL-Library.Char_ord" "HOL-Library.Product_Lexorder"
begin

section \<open>Count-min sketch with a top-k heap (count-min-101/CountMinSketch.ipynb)\<close>

text \<open>
  The notebook defines one class, \<^verbatim>\<open>Sketch\<close>, with the methods \<^verbatim>\<open>__init__\<close>,
  \<^verbatim>\<open>update\<close>, \<^verbatim>\<open>update_heap\<close>, \<^verbatim>\<open>get\<close> and \<^verbatim>\<open>__generate_hash_function\<close>, and the
  function \<^verbatim>\<open>CM_top_users\<close> that feeds a stream into a sketch and lists its candidates.
  The embedding below follows the Python text statement by statement.

  Conventions of the embedding.
  \<^item> Python integers are \<open>int\<close>. The counter array is a numpy array of dtype \<^verbatim>\<open>int32\<close>:
    its cells are \<open>32 word\<close>, read with \<open>sint\<close>; storing into a cell keeps the low 32 bits.
    numpy adds a Python integer to a cell as a 64-bit integer, so the embedding of
    \<^verbatim>\<open>+=\<close> is that of the code for increments in \<open>[-2^63, 2^63)\<close>; the statements about
    sequences of updates assume such increments (\<open>increments_fit\<close>).
  \<^item> \<^verbatim>\<open>delta\<close> and \<^verbatim>\<open>epsilon\<close> are Python floats; they are taken as reals, so
    \<^verbatim>\<open>np.exp\<close>, \<^verbatim>\<open>np.log\<close>, the division and \<^verbatim>\<open>np.ceil\<close> are the exact functions.
  \<^item> Every \<^verbatim>\<open>raise\<close> is a value \<open>Inl e\<close> of the result type \<open>error + 'a\<close>.
  \<^item> The pairs \<^verbatim>\<open>[estimate, key]\<close> are mutable Python lists that the heap and the
    dictionary may share. They live in an explicit store \<open>objs\<close> (a list, the address of
    an object being its index); the heap and the dictionary hold addresses.
  \<^item> The built-in \<^verbatim>\<open>hash\<close> and the draws of \<^verbatim>\<open>random.randrange\<close> are parameters:
    \<open>hash :: key \<Rightarrow> int\<close> and \<open>rnd :: nat \<Rightarrow> int\<close> (the i-th draw).
  \<^item> The dictionary \<^verbatim>\<open>top_k\<close> is an association list in insertion order.
\<close>

subsection \<open>Values and errors\<close>

type_synonym key = string

text \<open>The Python list \<^verbatim>\<open>[estimate, key]\<close>. Python compares two such lists
  lexicographically, which is the order of \<open>int \<times> string\<close> used here.\<close>

type_synonym pair = "int \<times> key"

type_synonym ref = nat

datatype error = ValueError string | IndexError | KeyError key | ZeroDivisionError

fun bnd :: "error + 'a \<Rightarrow> ('a \<Rightarrow> error + 'b) \<Rightarrow> error + 'b" where
  "bnd (Inl e) f = Inl e"
| "bnd (Inr x) f = f x"

definition BIG_PRIME :: int where
  "BIG_PRIME = 9223372036854775783"

text \<open>\<^verbatim>\<open>sys.maxsize\<close> on a 64-bit build.\<close>

definition sys_maxsize :: int where
  "sys_maxsize = 2 ^ 63 - 1"

record sketch =
  w :: int
  d :: int
  k :: int
  hash_functions :: "(int \<times> int) list"
  count :: "32 word list list"
  heap :: "ref list"
  top_k :: "(key \<times> ref) list"
  objs :: "pair list"

subsection \<open>The heapq module (Lib/heapq.py of CPython)\<close>

text \<open>
  \<^verbatim>\<open>_siftdown\<close>, \<^verbatim>\<open>_siftup\<close>, \<^verbatim>\<open>heappush\<close>, \<^verbatim>\<open>heappushpop\<close> and \<^verbatim>\<open>heapify\<close>, over any
  element type, with the comparison \<^verbatim>\<open><\<close> of the elements as the parameter \<open>lt\<close>.
\<close>

function siftdown_loop :: "('a \<Rightarrow> 'a \<Rightarrow> bool) \<Rightarrow> 'a \<Rightarrow> 'a list \<Rightarrow> nat \<Rightarrow> nat \<Rightarrow> 'a list" where
  "siftdown_loop lt newitem hp startpos pos =
     (if pos > startpos then
        (let parentpos = (pos - 1) div 2;
             parent = hp ! parentpos
         in if lt newitem parent
            then siftdown_loop lt newitem (hp[pos := parent]) startpos parentpos
            else hp[pos := newitem])
      else hp[pos := newitem])"
  by pat_completeness auto
termination
  by (relation "measure (\<lambda>(lt, newitem, hp, startpos, pos). pos)") auto

declare siftdown_loop.simps [simp del]

definition siftdown :: "('a \<Rightarrow> 'a \<Rightarrow> bool) \<Rightarrow> 'a list \<Rightarrow> nat \<Rightarrow> nat \<Rightarrow> 'a list" where
  "siftdown lt hp startpos pos = siftdown_loop lt (hp ! pos) hp startpos pos"

function siftup_loop :: "('a \<Rightarrow> 'a \<Rightarrow> bool) \<Rightarrow> 'a list \<Rightarrow> nat \<Rightarrow> nat \<Rightarrow> nat \<Rightarrow> 'a list \<times> nat" where
  "siftup_loop lt hp endpos pos childpos =
     (if childpos < endpos then
        siftup_loop lt
          (hp[pos := hp ! (if childpos + 1 < endpos \<and> \<not> lt (hp ! childpos) (hp ! (childpos + 1))
                           then childpos + 1 else childpos)])
          endpos
          (if childpos + 1 < endpos \<and> \<not> lt (hp ! childpos) (hp ! (childpos + 1))
           then childpos + 1 else childpos)
          (2 * (if childpos + 1 < endpos \<and> \<not> lt (hp ! childpos) (hp ! (childpos + 1))
                then childpos + 1 else childpos) + 1)
      else (hp, pos))"
  by pat_completeness auto
termination
  by (relation "measure (\<lambda>(lt, hp, endpos, pos, childpos). endpos - childpos)") auto

declare siftup_loop.simps [simp del]

definition siftup :: "('a \<Rightarrow> 'a \<Rightarrow> bool) \<Rightarrow> 'a list \<Rightarrow> nat \<Rightarrow> 'a list" where
  "siftup lt hp pos =
     (let endpos = length hp;
          startpos = pos;
          newitem = hp ! pos
      in case siftup_loop lt hp endpos pos (2 * pos + 1) of
           (hp', pos') \<Rightarrow> siftdown lt (hp'[pos' := newitem]) startpos pos')"

definition heappush :: "('a \<Rightarrow> 'a \<Rightarrow> bool) \<Rightarrow> 'a list \<Rightarrow> 'a \<Rightarrow> 'a list" where
  "heappush lt hp item = siftdown lt (hp @ [item]) 0 (length (hp @ [item]) - 1)"

text \<open>Returns the heap after the call and the item returned.\<close>

definition heappushpop :: "('a \<Rightarrow> 'a \<Rightarrow> bool) \<Rightarrow> 'a list \<Rightarrow> 'a \<Rightarrow> 'a list \<times> 'a" where
  "heappushpop lt hp item =
     (if hp \<noteq> [] \<and> lt (hp ! 0) item
      then (siftup lt (hp[0 := item]) 0, hp ! 0)
      else (hp, item))"

definition heapify :: "('a \<Rightarrow> 'a \<Rightarrow> bool) \<Rightarrow> 'a list \<Rightarrow> 'a list" where
  "heapify lt x = fold (\<lambda>i hp. siftup lt hp i) (rev [0..<length x div 2]) x"

subsection \<open>numpy indexing of the counter array\<close>

text \<open>An index into an axis of length \<open>n\<close>: negative indices count from the end,
  anything outside \<open>[-n, n)\<close> raises \<^verbatim>\<open>IndexError\<close>.\<close>

definition np_index :: "nat \<Rightarrow> int \<Rightarrow> error + nat" where
  "np_index n i =
     (if 0 \<le> i \<and> i < int n then Inr (nat i)
      else if - int n \<le> i \<and> i < 0 then Inr (nat (i + int n))
      else Inl IndexError)"

text \<open>\<^verbatim>\<open>self.count[row, column]\<close>\<close>

definition count_get :: "32 word list list \<Rightarrow> int \<Rightarrow> int \<Rightarrow> error + 32 word" where
  "count_get cnt row column =
     bnd (np_index (length cnt) row) (\<lambda>r.
     bnd (np_index (length (cnt ! r)) column) (\<lambda>c.
     Inr (cnt ! r ! c)))"

text \<open>\<^verbatim>\<open>self.count[row, column] += increment\<close>: the cell is read, the increment is
  added, and the sum is stored back into the \<^verbatim>\<open>int32\<close> cell, which keeps its low 32
  bits and raises nothing.\<close>

definition count_add :: "32 word list list \<Rightarrow> int \<Rightarrow> int \<Rightarrow> int \<Rightarrow> error + 32 word list list" where
  "count_add cnt row column increment =
     bnd (np_index (length cnt) row) (\<lambda>r.
     bnd (np_index (length (cnt ! r)) column) (\<lambda>c.
     Inr (cnt[r := (cnt ! r)[c := word_of_int (sint (cnt ! r ! c) + increment)]])))"

subsection \<open>The class Sketch\<close>

text \<open>\<^verbatim>\<open>__generate_hash_function\<close>: the i-th call draws \<open>a\<close>, then \<open>b\<close>. The function
  returned is kept as the pair \<open>(a, b)\<close>; \<open>apply_hash_function\<close> is its body
  \<^verbatim>\<open>(a * x + b) % BIG_PRIME % self.w\<close>, where \<^verbatim>\<open>%\<close> by zero raises.\<close>

definition generate_hash_function :: "(nat \<Rightarrow> int) \<Rightarrow> nat \<Rightarrow> int \<times> int" where
  "generate_hash_function rnd i = (rnd (2 * i), rnd (2 * i + 1))"

definition apply_hash_function :: "sketch \<Rightarrow> int \<times> int \<Rightarrow> int \<Rightarrow> error + int" where
  "apply_hash_function s hash_function x =
     (case hash_function of (a, b) \<Rightarrow>
        if w s = 0 then Inl ZeroDivisionError
        else Inr ((a * x + b) mod BIG_PRIME mod w s))"

definition init :: "real \<Rightarrow> real \<Rightarrow> int \<Rightarrow> (nat \<Rightarrow> int) \<Rightarrow> error + sketch" where
  "init delta epsilon kk rnd =
     (if delta \<le> 0 \<or> delta \<ge> 1 then
        Inl (ValueError ''delta must be between 0 and 1, exclusive'')
      else if epsilon \<le> 0 \<or> epsilon \<ge> 1 then
        Inl (ValueError ''epsilon must be between 0 and 1, exclusive'')
      else if kk < 1 then
        Inl (ValueError ''k must be a positive integer'')
      else
        (let ww = \<lceil>exp 1 / epsilon\<rceil>;
             dd = \<lceil>ln (1 / delta)\<rceil>
         in Inr \<lparr>w = ww, d = dd, k = kk,
                 hash_functions = map (generate_hash_function rnd) [0..<nat dd],
                 count = replicate (nat dd) (replicate (nat ww) 0),
                 heap = [], top_k = [], objs = []\<rparr>))"

text \<open>The loop of \<^verbatim>\<open>get\<close> over \<^verbatim>\<open>enumerate(self.hash_functions)\<close>.\<close>

fun get_rows :: "(key \<Rightarrow> int) \<Rightarrow> sketch \<Rightarrow> key \<Rightarrow> int \<Rightarrow> (nat \<times> (int \<times> int)) list \<Rightarrow> error + int" where
  "get_rows hash s key val [] = Inr val"
| "get_rows hash s key val ((row, hash_function) # rest) =
     bnd (apply_hash_function s hash_function \<bar>hash key\<bar>) (\<lambda>column.
     bnd (count_get (count s) (int row) column) (\<lambda>c.
     get_rows hash s key (min (sint c) val) rest))"

definition get :: "(key \<Rightarrow> int) \<Rightarrow> sketch \<Rightarrow> key \<Rightarrow> error + int" where
  "get hash s key = get_rows hash s key sys_maxsize (enumerate 0 (hash_functions s))"

text \<open>\<^verbatim>\<open>del self.top_k[x]\<close>\<close>

definition dict_del :: "(key \<times> ref) list \<Rightarrow> key \<Rightarrow> error + (key \<times> ref) list" where
  "dict_del m x = (if map_of m x = None then Inl (KeyError x) else Inr (AList.delete x m))"

text \<open>The comparison of two heap entries: the lists they point to are compared.\<close>

definition pair_lt :: "pair list \<Rightarrow> ref \<Rightarrow> ref \<Rightarrow> bool" where
  "pair_lt os r1 r2 = (os ! r1 < os ! r2)"

definition update_heap :: "(key \<Rightarrow> int) \<Rightarrow> sketch \<Rightarrow> key \<Rightarrow> error + sketch" where
  "update_heap hash s key =
     bnd (get hash s key) (\<lambda>estimate.
       if heap s = [] \<or> estimate \<ge> fst (objs s ! (heap s ! 0)) then
         (case map_of (top_k s) key of
            Some old_pair \<Rightarrow>
              (let os = (objs s)[old_pair := (estimate, snd (objs s ! old_pair))]
               in Inr (s\<lparr>objs := os, heap := heapify (pair_lt os) (heap s)\<rparr>))
          | None \<Rightarrow>
              if int (length (top_k s)) < k s then
                (let pushed = length (objs s);
                     os = objs s @ [(estimate, key)];
                     hp = heappush (pair_lt os) (heap s) pushed;
                     stored = length os;
                     os = os @ [(estimate, key)]
                 in Inr (s\<lparr>objs := os, heap := hp,
                           top_k := AList.update key stored (top_k s)\<rparr>))
              else
                (let new_pair = length (objs s);
                     os = objs s @ [(estimate, key)]
                 in case heappushpop (pair_lt os) (heap s) new_pair of
                      (hp, old_pair) \<Rightarrow>
                        if snd (os ! new_pair) \<noteq> snd (os ! old_pair) then
                          bnd (dict_del (top_k s) (snd (os ! old_pair))) (\<lambda>m.
                            Inr (s\<lparr>objs := os, heap := hp,
                                   top_k := AList.update key new_pair
                                              (AList.update key new_pair m)\<rparr>))
                        else
                          Inr (s\<lparr>objs := os, heap := hp,
                                 top_k := AList.update key new_pair (top_k s)\<rparr>)))
       else Inr s)"

text \<open>The loop of \<^verbatim>\<open>update\<close> over \<^verbatim>\<open>enumerate(self.hash_functions)\<close>.\<close>

fun update_rows :: "(key \<Rightarrow> int) \<Rightarrow> sketch \<Rightarrow> key \<Rightarrow> int \<Rightarrow> (nat \<times> (int \<times> int)) list \<Rightarrow> error + sketch" where
  "update_rows hash s key increment [] = Inr s"
| "update_rows hash s key increment ((row, hash_function) # rest) =
     bnd (apply_hash_function s hash_function \<bar>hash key\<bar>) (\<lambda>column.
     bnd (count_add (count s) (int row) column increment) (\<lambda>cnt.
     update_rows hash (s\<lparr>count := cnt\<rparr>) key increment rest))"

definition update :: "(key \<Rightarrow> int) \<Rightarrow> sketch \<Rightarrow> key \<Rightarrow> int \<Rightarrow> error + sketch" where
  "update hash s key increment =
     bnd (update_rows hash s key increment (enumerate 0 (hash_functions s))) (\<lambda>s'.
     update_heap hash s' key)"

subsection \<open>Feeding a stream and listing the candidates (CM_top_users)\<close>

text \<open>\<^verbatim>\<open>s.update(user_name, 1)\<close>, the only call the notebook makes on a sketch.\<close>

definition observe :: "(key \<Rightarrow> int) \<Rightarrow> sketch \<Rightarrow> key \<Rightarrow> error + sketch" where
  "observe hash s key = update hash s key 1"

fun feed :: "(key \<Rightarrow> int) \<Rightarrow> sketch \<Rightarrow> key list \<Rightarrow> error + sketch" where
  "feed hash s [] = Inr s"
| "feed hash s (key # f) = bnd (observe hash s key) (\<lambda>s'. feed hash s' f)"

text \<open>\<^verbatim>\<open>s.top_k.values()\<close> and \<^verbatim>\<open>reversed(sorted(s.top_k.values()))\<close>, the ordered
  candidate list.\<close>

definition top_k_values :: "sketch \<Rightarrow> pair list" where
  "top_k_values s = map (\<lambda>(x, r). objs s ! r) (top_k s)"

definition snapshot :: "sketch \<Rightarrow> pair list" where
  "snapshot s = rev (sort (top_k_values s))"

text \<open>\<^verbatim>\<open>CM_top_users(f, s, top_n)\<close> without the formatting of the result lines: the sketch
  after the stream and the first \<open>top_n\<close> candidates.\<close>

definition CM_top_users :: "(key \<Rightarrow> int) \<Rightarrow> key list \<Rightarrow> sketch \<Rightarrow> int \<Rightarrow> error + sketch \<times> pair list" where
  "CM_top_users hash f s top_n =
     bnd (feed hash s f) (\<lambda>s'. Inr (s', take (nat top_n) (snapshot s')))"

text \<open>A sequence of \<^verbatim>\<open>update(key, increment)\<close> calls.\<close>

fun run :: "(key \<Rightarrow> int) \<Rightarrow> sketch \<Rightarrow> (key \<times> int) list \<Rightarrow> error + sketch" where
  "run hash s [] = Inr s"
| "run hash s ((key, increment) # ups) =
     bnd (update hash s key increment) (\<lambda>s'. run hash s' ups)"


subsection \<open>Notions used in the statements\<close>

text \<open>The column the hash function \<open>(a, b)\<close> sends the hashed key \<open>x\<close> to.\<close>

definition column_of :: "sketch \<Rightarrow> int \<times> int \<Rightarrow> int \<Rightarrow> int" where
  "column_of s hash_function x = (fst hash_function * x + snd hash_function) mod BIG_PRIME mod w s"

text \<open>The counters of a key, one per row, read as signed integers.\<close>

definition cells_of :: "(key \<Rightarrow> int) \<Rightarrow> sketch \<Rightarrow> key \<Rightarrow> int list" where
  "cells_of hash s key =
     map (\<lambda>(row, hash_function). sint (count s ! row ! nat (column_of s hash_function \<bar>hash key\<bar>)))
       (enumerate 0 (hash_functions s))"

text \<open>The shape of a constructed sketch: \<open>d\<close> hash functions, a grid of \<open>d\<close> rows of
  \<open>w\<close> counters, and \<open>w\<close>, \<open>d\<close>, \<open>k\<close> positive.\<close>

definition shape :: "sketch \<Rightarrow> bool" where
  "shape s \<longleftrightarrow>
     1 \<le> w s \<and> 1 \<le> d s \<and> 1 \<le> k s \<and>
     int (length (hash_functions s)) = d s \<and>
     int (length (count s)) = d s \<and>
     (\<forall>row \<in> set (count s). int (length row) = w s)"

text \<open>The keys of the heap entries, in heap order.\<close>

definition heap_keys :: "sketch \<Rightarrow> key list" where
  "heap_keys s = map (\<lambda>r. snd (objs s ! r)) (heap s)"

text \<open>The pairs the heap entries point to, in heap order.\<close>

definition heap_pairs :: "sketch \<Rightarrow> pair list" where
  "heap_pairs s = map (\<lambda>r. objs s ! r) (heap s)"

text \<open>The dictionary with every address replaced by the pair it points to.\<close>

definition top_k_items :: "sketch \<Rightarrow> (key \<times> pair) list" where
  "top_k_items s = map (\<lambda>(x, r). (x, objs s ! r)) (top_k s)"

text \<open>What the candidate structure keeps true: the dictionary has each key once and maps
  it to a pair carrying that key; every address is allocated; the heap entries carry
  different keys, each of them a key of the dictionary.\<close>

definition cands :: "sketch \<Rightarrow> bool" where
  "cands s \<longleftrightarrow>
     distinct (map fst (top_k s)) \<and>
     (\<forall>(x, r) \<in> set (top_k s). r < length (objs s) \<and> snd (objs s ! r) = x) \<and>
     (\<forall>r \<in> set (heap s). r < length (objs s)) \<and>
     distinct (heap_keys s) \<and>
     set (heap_keys s) \<subseteq> fst ` set (top_k s)"

text \<open>The true count of a key in a sequence of updates, the sum of all increments, and
  the sum of the increments of the keys that row \<open>row\<close> of the sketch sends to column
  \<open>c\<close>.\<close>

definition true_count :: "key \<Rightarrow> (key \<times> int) list \<Rightarrow> int" where
  "true_count key ups = sum_list (map snd (filter (\<lambda>(x, i). x = key) ups))"

definition total_count :: "(key \<times> int) list \<Rightarrow> int" where
  "total_count ups = sum_list (map snd ups)"

text \<open>The increments of a sequence of updates fit a 64-bit signed integer.\<close>

definition increments_fit :: "(key \<times> int) list \<Rightarrow> bool" where
  "increments_fit ups \<longleftrightarrow> (\<forall>(x, i) \<in> set ups. - (2 ^ 63) \<le> i \<and> i < 2 ^ 63)"

definition cell_total :: "(key \<Rightarrow> int) \<Rightarrow> sketch \<Rightarrow> nat \<Rightarrow> int \<Rightarrow> (key \<times> int) list \<Rightarrow> int" where
  "cell_total hash s row c ups =
     sum_list (map snd (filter (\<lambda>(x, i). column_of s (hash_functions s ! row) \<bar>hash x\<bar> = c) ups))"

subsection \<open>A concrete setting for examples\<close>

text \<open>A stand-in for the built-in \<^verbatim>\<open>hash\<close> (the sum of the character codes), a
  random source that always draws 1, and the sketch that
  \<^verbatim>\<open>Sketch(0.5, 0.5, kk)\<close> builds from it: one row of six counters.\<close>

definition ord_hash :: "key \<Rightarrow> int" where
  "ord_hash x = sum_list (map (\<lambda>c. int (of_char c)) x)"

definition rnd1 :: "nat \<Rightarrow> int" where
  "rnd1 i = 1"

definition sketch_half :: "int \<Rightarrow> (nat \<Rightarrow> int) \<Rightarrow> sketch" where
  "sketch_half kk rnd =
     \<lparr>w = 6, d = 1, k = kk, hash_functions = [(rnd 0, rnd 1)],
      count = [[0, 0, 0, 0, 0, 0]], heap = [], top_k = [], objs = []\<rparr>"

text \<open>That sketch after \<^verbatim>\<open>update('A', 1)\<close>.\<close>

definition sketch_after_A :: "int \<Rightarrow> sketch" where
  "sketch_after_A kk =
     \<lparr>w = 6, d = 1, k = kk, hash_functions = [(1, 1)],
      count = [[1, 0, 0, 0, 0, 0]], heap = [0], top_k = [(''A'', 1)],
      objs = [(1, ''A''), (1, ''A'')]\<rparr>"

section \<open>Construction\<close>

lemma exp_1_gt_5_2: "5 / 2 < exp (1::real)"
proof -
  have "1 + (1/2) + (1/2)^2 / 2 \<le> exp (1/2::real)"
    by (rule exp_lower_Taylor_quadratic) simp
  then have "13/8 \<le> exp (1/2::real)"
    by (simp add: power2_eq_square)
  then have "(13/8)^2 \<le> (exp (1/2::real))^2"
    by (intro power_mono) auto
  also have "(exp (1/2::real))^2 = exp 1"
    by (simp add: exp_double [symmetric])
  finally show ?thesis by (simp add: power2_eq_square)
qed

lemma ceiling_w_half: "\<lceil>exp 1 / (1/2::real)\<rceil> = 6"
  using exp_1_gt_5_2 exp_le by (simp add: ceiling_eq_iff)

lemma ceiling_d_half: "\<lceil>ln (1 / (1/2::real))\<rceil> = 1"
  using ln_2_less_1 by (simp add: ceiling_eq_iff)

lemma init_half: "1 \<le> kk \<Longrightarrow> init (1/2) (1/2) kk rnd = Inr (sketch_half kk rnd)"
  using ceiling_w_half ceiling_d_half
  by (simp add: init_def sketch_half_def generate_hash_function_def Let_def numeral_eq_Suc)

lemma init_Inr_iff:
  "init delta epsilon kk rnd = Inr s \<longleftrightarrow>
     0 < delta \<and> delta < 1 \<and> 0 < epsilon \<and> epsilon < 1 \<and> 1 \<le> kk \<and>
     s = \<lparr>w = \<lceil>exp 1 / epsilon\<rceil>, d = \<lceil>ln (1 / delta)\<rceil>, k = kk,
          hash_functions = map (generate_hash_function rnd) [0..<nat \<lceil>ln (1 / delta)\<rceil>],
          count = replicate (nat \<lceil>ln (1 / delta)\<rceil>) (replicate (nat \<lceil>exp 1 / epsilon\<rceil>) 0),
          heap = [], top_k = [], objs = []\<rparr>"
  by (auto simp: init_def Let_def)

lemma init_w_ge_1: "0 < epsilon \<Longrightarrow> 1 \<le> \<lceil>exp 1 / epsilon :: real\<rceil>"
  by (simp add: Suc_le_eq)

lemma init_d_ge_1: "0 < delta \<Longrightarrow> delta < 1 \<Longrightarrow> 1 \<le> \<lceil>ln (1 / delta :: real)\<rceil>"
proof -
  assume "0 < delta" "delta < 1"
  then have "0 < ln (1 / delta)" by (simp add: ln_div)
  then show ?thesis by simp
qed

text \<open>
  Claim C5. Constructing a sketch with delta = 0, delta = 1, epsilon <= 0, epsilon >= 1
  or k = 0 raises ValueError: the constructor returns the error and no sketch, whatever
  the other arguments are. Constructing with delta = 0.5, epsilon = 0.5, k = 1 succeeds,
  with one row of six zero counters and an empty heap and dictionary.
\<close>

theorem init_parameter_validation:
  "(delta = 0 \<or> delta = 1 \<or> epsilon \<le> 0 \<or> epsilon \<ge> 1 \<or> kk = 0
      \<longrightarrow> (\<exists>msg. init delta epsilon kk rnd = Inl (ValueError msg)))
   \<and> init (1/2) (1/2) 1 rnd = Inr (sketch_half 1 rnd)"
proof (intro conjI impI)
  assume "delta = 0 \<or> delta = 1 \<or> epsilon \<le> 0 \<or> epsilon \<ge> 1 \<or> kk = 0"
  then show "\<exists>msg. init delta epsilon kk rnd = Inl (ValueError msg)"
    by (auto simp: init_def)
next
  show "init (1/2) (1/2) 1 rnd = Inr (sketch_half 1 rnd)"
    by (simp add: init_half)
qed

theorem init_parameter_validation_witness:
  "(\<exists>msg. init 0 (1/2) 1 rnd1 = Inl (ValueError msg))
   \<and> (\<exists>msg. init (1/2) 1 1 rnd1 = Inl (ValueError msg))
   \<and> (\<exists>msg. init (1/2) (1/2) 0 rnd1 = Inl (ValueError msg))
   \<and> init (1/2) (1/2) 1 rnd1 = Inr (sketch_half 1 rnd1)"
  using init_parameter_validation [of 0 "1/2" 1 rnd1]
    init_parameter_validation [of "1/2" 1 1 rnd1]
    init_parameter_validation [of "1/2" "1/2" 0 rnd1]
  by simp

section \<open>The candidate set\<close>

text \<open>
  Claim C2, evaluated on the code. With k = 1, observing ''B'' and then ''A'' (two keys
  that share no counter) leaves two keys in the dictionary and one entry in the heap:
  \<^verbatim>\<open>heappushpop\<close> returns the new pair itself, because \<^verbatim>\<open>[1, 'B'] < [1, 'A']\<close> is
  false, and the assignment \<^verbatim>\<open>self.top_k[key] = new_pair\<close> after the \<^verbatim>\<open>if\<close> still
  stores it. The candidate list then has two members although k is 1.
\<close>

theorem top_k_outgrows_k:
  "init (1/2) (1/2) 1 rnd1 = Inr (sketch_half 1 rnd1)
   \<and> feed ord_hash (sketch_half 1 rnd1) [''B'', ''A'']
       = Inr \<lparr>w = 6, d = 1, k = 1, hash_functions = [(1, 1)],
              count = [[1, 1, 0, 0, 0, 0]], heap = [0],
              top_k = [(''B'', 1), (''A'', 2)],
              objs = [(1, ''B''), (1, ''B''), (1, ''A'')]\<rparr>
   \<and> snapshot \<lparr>w = 6, d = 1, k = 1, hash_functions = [(1, 1)],
              count = [[1, 1, 0, 0, 0, 0]], heap = [0],
              top_k = [(''B'', 1), (''A'', 2)],
              objs = [(1, ''B''), (1, ''B''), (1, ''A'')]\<rparr>
       = [(1, ''B''), (1, ''A'')]"
  apply (intro conjI)
    apply (simp add: init_half)
   apply code_simp
  apply code_simp
  done

text \<open>
  Claim C7, evaluated on the code. With k = 2, observing ''A'' twice leaves the estimate
  2 in the dictionary's pair and the estimate 1 in the heap's pair: the first call put
  two different lists \<^verbatim>\<open>[estimate, key]\<close> into the heap and into the dictionary, so the
  assignment \<^verbatim>\<open>old_pair[0] = estimate\<close> of the second call reaches only the dictionary's.
\<close>

theorem heap_entry_left_stale:
  "init (1/2) (1/2) 2 rnd1 = Inr (sketch_half 2 rnd1)
   \<and> feed ord_hash (sketch_half 2 rnd1) [''A'', ''A'']
       = Inr \<lparr>w = 6, d = 1, k = 2, hash_functions = [(1, 1)],
              count = [[2, 0, 0, 0, 0, 0]], heap = [0],
              top_k = [(''A'', 1)],
              objs = [(1, ''A''), (2, ''A'')]\<rparr>
   \<and> heap_pairs \<lparr>w = 6, d = 1, k = 2, hash_functions = [(1, 1)],
              count = [[2, 0, 0, 0, 0, 0]], heap = [0],
              top_k = [(''A'', 1)],
              objs = [(1, ''A''), (2, ''A'')]\<rparr> = [(1, ''A'')]
   \<and> top_k_items \<lparr>w = 6, d = 1, k = 2, hash_functions = [(1, 1)],
              count = [[2, 0, 0, 0, 0, 0]], heap = [0],
              top_k = [(''A'', 1)],
              objs = [(1, ''A''), (2, ''A'')]\<rparr> = [(''A'', (2, ''A''))]"
  apply (intro conjI)
     apply (simp add: init_half)
    apply code_simp
   apply code_simp
  apply code_simp
  done

section \<open>Determinism\<close>

text \<open>
  Claim C9. Two sketches constructed with the same delta, epsilon and k whose hash
  functions have the same parameters (a, b) in every row are the same sketch, whatever
  else their random sources would have drawn; fed the same keys under the same key hash
  they fail alike or end in states with the same estimate for every key and the same
  ordered candidate list.
\<close>

theorem determinism_given_hash_parameters:
  assumes "init delta epsilon kk rnd = Inr s"
    and "init delta epsilon kk rnd' = Inr s'"
    and "hash_functions s' = hash_functions s"
  shows "s' = s \<and> feed hash s' f = feed hash s f
    \<and> (\<forall>t t'. feed hash s f = Inr t \<and> feed hash s' f = Inr t'
          \<longrightarrow> (\<forall>key. get hash t' key = get hash t key) \<and> snapshot t' = snapshot t)"
proof -
  from assms have "s' = s"
    by (auto simp: init_Inr_iff)
  then show ?thesis by auto
qed

theorem determinism_given_hash_parameters_witness:
  "feed ord_hash (sketch_half 1 (\<lambda>i. if i < 2 then 1 else 0)) [''B'', ''A'']
     = feed ord_hash (sketch_half 1 rnd1) [''B'', ''A'']"
proof -
  have a: "init (1/2) (1/2) 1 rnd1 = Inr (sketch_half 1 rnd1)"
    by (simp add: init_half)
  have b: "init (1/2) (1/2) 1 (\<lambda>i. if i < 2 then 1 else 0)
             = Inr (sketch_half 1 (\<lambda>i. if i < 2 then 1 else 0))"
    by (simp add: init_half)
  have c: "hash_functions (sketch_half 1 (\<lambda>i. if i < 2 then 1 else 0))
             = hash_functions (sketch_half 1 rnd1)"
    by (simp add: sketch_half_def rnd1_def)
  from determinism_given_hash_parameters [OF a b c] show ?thesis by blast
qed

section \<open>The heapq functions permute the heap\<close>

lemma siftdown_loop_length [simp]:
  "length (siftdown_loop lt x hp sp pos) = length hp"
  by (induction lt x hp sp pos rule: siftdown_loop.induct)
     (subst siftdown_loop.simps, simp add: Let_def)

lemma mset_hole_move:
  assumes "i < length hp" "j < length hp"
  shows "mset (hp[i := hp ! j, j := x]) = mset (hp[i := x])"
proof (cases "i = j")
  case True
  then show ?thesis by simp
next
  case False
  from assms have "mset ((hp[i := x])[i := (hp[i := x]) ! j, j := (hp[i := x]) ! i]) = mset (hp[i := x])"
    by (intro mset_swap) simp_all
  with False assms show ?thesis by simp
qed

lemma siftdown_loop_mset:
  "pos < length hp \<Longrightarrow> mset (siftdown_loop lt x hp sp pos) = mset (hp[pos := x])"
proof (induction lt x hp sp pos rule: siftdown_loop.induct)
  case (1 lt newitem hp startpos pos)
  show ?case
  proof (cases "pos > startpos \<and> lt newitem (hp ! ((pos - 1) div 2))")
    case True
    then have pp: "(pos - 1) div 2 < length hp" using "1.prems" by auto
    have "mset (siftdown_loop lt newitem (hp[pos := hp ! ((pos - 1) div 2)]) startpos ((pos - 1) div 2))
          = mset (hp[pos := hp ! ((pos - 1) div 2), (pos - 1) div 2 := newitem])"
      using True pp by (intro "1.IH") auto
    also have "\<dots> = mset (hp[pos := newitem])"
      using "1.prems" pp by (rule mset_hole_move)
    finally show ?thesis
      using True by (subst siftdown_loop.simps) (simp add: Let_def)
  next
    case False
    then show ?thesis
      by (subst siftdown_loop.simps) (auto simp: Let_def)
  qed
qed

lemma siftdown_mset: "pos < length hp \<Longrightarrow> mset (siftdown lt hp sp pos) = mset hp"
  by (simp add: siftdown_def siftdown_loop_mset)

lemma siftup_loop_hole:
  "siftup_loop lt hp endpos pos childpos = (hp', pos') \<Longrightarrow> endpos = length hp \<Longrightarrow> pos < length hp
   \<Longrightarrow> length hp' = length hp \<and> pos' < length hp \<and> mset (hp'[pos' := x]) = mset (hp[pos := x])"
proof (induction lt hp endpos pos childpos arbitrary: hp' pos' rule: siftup_loop.induct)
  case (1 lt hp endpos pos childpos)
  show ?case
  proof (cases "childpos < endpos")
    case True
    define c where "c = (if childpos + 1 < endpos \<and> \<not> lt (hp ! childpos) (hp ! (childpos + 1))
           then childpos + 1 else childpos)"
    have c: "c < length hp" using True "1.prems" by (auto simp: c_def)
    have step: "siftup_loop lt (hp[pos := hp ! c]) endpos c (2 * c + 1) = (hp', pos')"
      using "1.prems"(1) True by (subst (asm) siftup_loop.simps) (simp add: c_def)
    have "length hp' = length (hp[pos := hp ! c]) \<and> pos' < length (hp[pos := hp ! c])
          \<and> mset (hp'[pos' := x]) = mset (hp[pos := hp ! c, c := x])"
      using True step "1.prems" c unfolding c_def by (intro "1.IH") auto
    moreover have "mset (hp[pos := hp ! c, c := x]) = mset (hp[pos := x])"
      using "1.prems" c by (intro mset_hole_move) auto
    ultimately show ?thesis by simp
  next
    case False
    with "1.prems" show ?thesis
      by (subst (asm) siftup_loop.simps) auto
  qed
qed

lemma siftup_mset: "pos < length hp \<Longrightarrow> mset (siftup lt hp pos) = mset hp"
proof -
  assume pos: "pos < length hp"
  obtain hp' pos' where l: "siftup_loop lt hp (length hp) pos (2 * pos + 1) = (hp', pos')"
    by (cases "siftup_loop lt hp (length hp) pos (2 * pos + 1)")
  from siftup_loop_hole [OF l refl pos, of "hp ! pos"]
  have "length hp' = length hp" "pos' < length hp" "mset (hp'[pos' := hp ! pos]) = mset hp"
    by simp_all
  then show ?thesis
    using l by (simp add: siftup_def Let_def siftdown_mset)
qed

lemma fold_siftup_mset:
  "\<forall>i \<in> set is. i < length hp \<Longrightarrow> mset (fold (\<lambda>i hp. siftup lt hp i) is hp) = mset hp"
proof (induction "is" arbitrary: hp)
  case Nil
  then show ?case by simp
next
  case (Cons i "is")
  have m: "mset (siftup lt hp i) = mset hp" using Cons.prems by (simp add: siftup_mset)
  then have "length (siftup lt hp i) = length hp" by (metis size_mset)
  with Cons m show ?case by simp
qed

lemma heapify_mset [simp]: "mset (heapify lt x) = mset x"
  unfolding heapify_def by (rule fold_siftup_mset) auto

lemma heappush_mset [simp]: "mset (heappush lt hp item) = add_mset item (mset hp)"
  by (simp add: heappush_def siftdown_mset)

lemma heappushpop_cases:
  assumes "heappushpop lt hp item = (hp', old)"
  shows "(old = item \<and> hp' = hp) \<or> (hp \<noteq> [] \<and> old = hp ! 0 \<and> lt (hp ! 0) item \<and> mset hp' = add_mset item (mset hp - {#hp ! 0#}))"
proof (cases "hp \<noteq> [] \<and> lt (hp ! 0) item")
  case True
  then have "mset (siftup lt (hp[0 := item]) 0) = mset (hp[0 := item])"
    by (intro siftup_mset) simp
  with True assms show ?thesis
    by (auto simp: heappushpop_def mset_update)
next
  case False
  with assms show ?thesis by (auto simp: heappushpop_def)
qed

section \<open>The loops over the rows\<close>

lemma column_of_range: "1 \<le> w s \<Longrightarrow> 0 \<le> column_of s hf x \<and> column_of s hf x < w s"
  by (simp add: column_of_def)

lemma apply_hash_function_eq: "1 \<le> w s \<Longrightarrow> apply_hash_function s hf x = Inr (column_of s hf x)"
  by (cases hf) (simp add: apply_hash_function_def column_of_def)

lemma column_of_count_update [simp]: "column_of (s\<lparr>count := cnt\<rparr>) = column_of s"
  by (simp add: column_of_def fun_eq_iff)

lemma np_index_in_range: "0 \<le> i \<Longrightarrow> i < int n \<Longrightarrow> np_index n i = Inr (nat i)"
  by (simp add: np_index_def)

lemma count_get_eq:
  "row < length cnt \<Longrightarrow> 0 \<le> c \<Longrightarrow> c < int (length (cnt ! row))
   \<Longrightarrow> count_get cnt (int row) c = Inr (cnt ! row ! nat c)"
  by (simp add: count_get_def np_index_in_range)

lemma count_add_eq:
  "row < length cnt \<Longrightarrow> 0 \<le> c \<Longrightarrow> c < int (length (cnt ! row))
   \<Longrightarrow> count_add cnt (int row) c inc
       = Inr (cnt[row := (cnt ! row)[nat c := cnt ! row ! nat c + word_of_int inc]])"
  by (simp add: count_add_def np_index_in_range)

lemma get_rows_eq:
  assumes "1 \<le> w s" "\<forall>row \<in> set (count s). int (length row) = w s"
    "n + length hfs \<le> length (count s)"
  shows "get_rows hash s key val (enumerate n hfs)
    = Inr (fold min (map (\<lambda>(row, hf). sint (count s ! row ! nat (column_of s hf \<bar>hash key\<bar>)))
             (enumerate n hfs)) val)"
  using assms(3)
proof (induction hfs arbitrary: n val)
  case Nil
  then show ?case by simp
next
  case (Cons hf hfs)
  have n: "n < length (count s)" using Cons.prems by simp
  then have len: "int (length (count s ! n)) = w s" using assms(2) by simp
  have col: "0 \<le> column_of s hf \<bar>hash key\<bar>" "column_of s hf \<bar>hash key\<bar> < w s"
    using column_of_range [OF assms(1)] by simp_all
  have "Suc n + length hfs \<le> length (count s)" using Cons.prems by simp
  note IH = Cons.IH [OF this]
  show ?case
    using n len col by (simp add: apply_hash_function_eq [OF assms(1)] count_get_eq IH)
qed

lemma get_eq: "shape s \<Longrightarrow> get hash s key = Inr (fold min (cells_of hash s key) sys_maxsize)"
  unfolding get_def cells_of_def by (rule get_rows_eq) (auto simp: shape_def)

lemma update_rows_cells:
  assumes "1 \<le> w s" "\<forall>row \<in> set (count s). int (length row) = w s"
    "n + length hfs \<le> length (count s)"
  shows "\<exists>cnt. update_rows hash s key inc (enumerate n hfs) = Inr (s\<lparr>count := cnt\<rparr>)
      \<and> length cnt = length (count s) \<and> (\<forall>row \<in> set cnt. int (length row) = w s)
      \<and> (\<forall>r c. r < length cnt \<longrightarrow> c < nat (w s) \<longrightarrow>
            cnt ! r ! c = count s ! r ! c +
              (if n \<le> r \<and> r < n + length hfs \<and> column_of s (hfs ! (r - n)) \<bar>hash key\<bar> = int c
               then word_of_int inc else 0))"
  using assms
proof (induction hfs arbitrary: s n)
  case Nil
  have "s\<lparr>count := count s\<rparr> = s" by simp
  with Nil show ?case
    by (intro exI [of _ "count s"]) simp
next
  case (Cons hf hfs)
  define col where "col = column_of s hf \<bar>hash key\<bar>"
  define cnt1 where "cnt1 = (count s)[n := (count s ! n)[nat col := count s ! n ! nat col + word_of_int inc]]"
  define s1 where "s1 = s\<lparr>count := cnt1\<rparr>"
  have n: "n < length (count s)" using Cons.prems by simp
  then have len: "int (length (count s ! n)) = w s" using Cons.prems by simp
  have col: "0 \<le> col" "col < w s"
    using column_of_range [OF Cons.prems(1)] by (simp_all add: col_def)
  have rows1: "\<forall>row \<in> set (count s1). int (length row) = w s1"
  proof
    fix row assume "row \<in> set (count s1)"
    then have "row \<in> insert ((count s ! n)[nat col := count s ! n ! nat col + word_of_int inc]) (set (count s))"
      using set_update_subset_insert by (fastforce simp: s1_def cnt1_def)
    then show "int (length row) = w s1"
      using Cons.prems(2) len by (auto simp: s1_def)
  qed
  have "1 \<le> w s1" "Suc n + length hfs \<le> length (count s1)"
    using Cons.prems by (simp_all add: s1_def cnt1_def)
  from Cons.IH [OF this(1) rows1 this(2)]
  obtain cnt where cnt: "update_rows hash s1 key inc (enumerate (Suc n) hfs) = Inr (s1\<lparr>count := cnt\<rparr>)"
    "length cnt = length (count s1)" "\<forall>row \<in> set cnt. int (length row) = w s1"
    "\<And>r c. r < length cnt \<Longrightarrow> c < nat (w s1) \<Longrightarrow>
            cnt ! r ! c = count s1 ! r ! c +
              (if Suc n \<le> r \<and> r < Suc n + length hfs \<and> column_of s1 (hfs ! (r - Suc n)) \<bar>hash key\<bar> = int c
               then word_of_int inc else 0)"
    by blast
  have step: "update_rows hash s key inc (enumerate n (hf # hfs)) = Inr (s\<lparr>count := cnt\<rparr>)"
    using n len col cnt(1)
    by (simp add: apply_hash_function_eq [OF Cons.prems(1)] count_add_eq col_def [symmetric]
        cnt1_def [symmetric] s1_def [symmetric]) (simp add: s1_def)
  have cells: "cnt ! r ! c = count s ! r ! c +
              (if n \<le> r \<and> r < n + length (hf # hfs) \<and> column_of s ((hf # hfs) ! (r - n)) \<bar>hash key\<bar> = int c
               then word_of_int inc else 0)"
    if r: "r < length cnt" and c: "c < nat (w s)" for r c
  proof -
    have r': "r < length (count s)" using r cnt(2) by (simp add: s1_def cnt1_def)
    have c1: "count s1 ! r ! c = count s ! r ! c + (if r = n \<and> col = int c then word_of_int inc else 0)"
    proof (cases "r = n")
      case True
      have "c < length (count s ! n)" using c len by simp
      then show ?thesis
        using True n col by (auto simp: s1_def cnt1_def nth_list_update)
    next
      case False
      then show ?thesis by (simp add: s1_def cnt1_def)
    qed
    have "cnt ! r ! c = count s1 ! r ! c +
              (if Suc n \<le> r \<and> r < Suc n + length hfs \<and> column_of s1 (hfs ! (r - Suc n)) \<bar>hash key\<bar> = int c
               then word_of_int inc else 0)"
      using cnt(4) [OF r] c by (simp add: s1_def)
    then show ?thesis
      unfolding c1
      by (cases "r = n") (auto simp: s1_def col_def Suc_diff_Suc nth_Cons')
  qed
  show ?case
    using step cnt(2,3) cells
    by (intro exI [of _ cnt]) (simp add: s1_def cnt1_def)
qed

section \<open>The candidate structure is kept by update_heap\<close>

lemma candsI:
  assumes "distinct (map fst tk)"
    and "\<forall>(x, r) \<in> set tk. r < length os \<and> snd (os ! r) = x"
    and "mset hp = mset L"
    and "\<forall>r \<in> set L. r < length os"
    and "distinct (map (\<lambda>r. snd (os ! r)) L)"
    and "(\<lambda>r. snd (os ! r)) ` set L \<subseteq> fst ` set tk"
  shows "cands (s\<lparr>objs := os, heap := hp, top_k := tk\<rparr>)"
proof -
  from assms(3) have set: "set hp = set L" by (rule mset_eq_setD)
  from assms(3) have "mset (map (\<lambda>r. snd (os ! r)) hp) = mset (map (\<lambda>r. snd (os ! r)) L)"
    by simp
  then have "distinct (map (\<lambda>r. snd (os ! r)) hp) \<longleftrightarrow> distinct (map (\<lambda>r. snd (os ! r)) L)"
    by (rule mset_eq_imp_distinct_iff)
  with assms set show ?thesis
    by (simp add: cands_def heap_keys_def)
qed

lemma set_alist_update_subset:
  "set (AList.update x v al) \<subseteq> insert (x, v) (set al)"
  by (induction al) (auto simp: AList.update.simps)

lemma update_heap_inv:
  assumes shape: "shape s" and cands: "cands s"
  shows "\<exists>s'. update_heap hash s key = Inr s' \<and> cands s' \<and> count s' = count s
    \<and> w s' = w s \<and> d s' = d s \<and> k s' = k s \<and> hash_functions s' = hash_functions s"
proof -
  define e where "e = fold min (cells_of hash s key) sys_maxsize"
  have e: "get hash s key = Inr e"
    using get_eq [OF shape] by (simp add: e_def)
  from cands have dk: "distinct (map fst (top_k s))"
    and tk: "\<forall>(x, r) \<in> set (top_k s). r < length (objs s) \<and> snd (objs s ! r) = x"
    and hr: "\<forall>r \<in> set (heap s). r < length (objs s)"
    and hd: "distinct (map (\<lambda>r. snd (objs s ! r)) (heap s))"
    and hs: "(\<lambda>r. snd (objs s ! r)) ` set (heap s) \<subseteq> fst ` set (top_k s)"
    by (simp_all add: cands_def heap_keys_def)
  show ?thesis
  proof (cases "heap s = [] \<or> e \<ge> fst (objs s ! (heap s ! 0))")
    case False
    then have "update_heap hash s key = Inr s"
      by (simp add: update_heap_def e)
    with cands show ?thesis by simp
  next
    case gate: True
    show ?thesis
    proof (cases "map_of (top_k s) key")
      case (Some old_pair)
      define os where "os = (objs s)[old_pair := (e, snd (objs s ! old_pair))]"
      define s' where "s' = s\<lparr>objs := os, heap := heapify (pair_lt os) (heap s), top_k := top_k s\<rparr>"
      have eq: "update_heap hash s key = Inr s'"
        using gate Some by (simp add: update_heap_def e Let_def os_def s'_def)
      have keys: "snd (os ! r) = snd (objs s ! r)" for r
        by (cases "old_pair < length (objs s)") (simp_all add: os_def nth_list_update list_update_beyond)
      have "cands s'"
        unfolding s'_def
        using dk tk hr hd hs
        by (intro candsI [where L = "heap s"]) (auto simp: keys, auto simp: os_def)
      then show ?thesis
        using eq by (simp add: s'_def)
    next
      case None
      then have nk: "key \<notin> fst ` set (top_k s)"
        by (simp add: map_of_eq_None_iff)
      with hs have nh: "key \<notin> (\<lambda>r. snd (objs s ! r)) ` set (heap s)"
        by blast
      show ?thesis
      proof (cases "int (length (top_k s)) < k s")
        case True
        define os1 where "os1 = objs s @ [(e, key)]"
        define os where "os = os1 @ [(e, key)]"
        define hp where "hp = heappush (pair_lt os1) (heap s) (length (objs s))"
        define tk' where "tk' = AList.update key (length os1) (top_k s)"
        define s' where "s' = s\<lparr>objs := os, heap := hp, top_k := tk'\<rparr>"
        have eq: "update_heap hash s key = Inr s'"
          using gate None True
          by (simp add: update_heap_def e Let_def os_def os1_def hp_def tk'_def s'_def)
        have old: "os ! r = objs s ! r" if "r < length (objs s)" for r
          using that by (simp add: os_def os1_def nth_append)
        have new: "os ! length (objs s) = (e, key)" "os ! length os1 = (e, key)"
          by (simp_all add: os_def os1_def nth_append)
        have tk'_set: "set tk' \<subseteq> insert (key, length os1) (set (top_k s))"
          unfolding tk'_def by (rule set_alist_update_subset)
        have 1: "distinct (map fst tk')"
          using dk by (simp add: tk'_def distinct_update)
        have 2: "\<forall>(x, r) \<in> set tk'. r < length os \<and> snd (os ! r) = x"
        proof (clarify)
          fix x r assume "(x, r) \<in> set tk'"
          with tk'_set have "(x, r) = (key, length os1) \<or> (x, r) \<in> set (top_k s)" by auto
          then show "r < length os \<and> snd (os ! r) = x"
            using tk new old by (auto simp: os_def os1_def)
        qed
        have 3: "mset hp = mset (length (objs s) # heap s)"
          by (simp add: hp_def)
        have 4: "\<forall>r \<in> set (length (objs s) # heap s). r < length os"
          using hr by (auto simp: os_def os1_def)
        have kmap: "map (\<lambda>r. snd (os ! r)) (heap s) = map (\<lambda>r. snd (objs s ! r)) (heap s)"
          using hr old by simp
        have 5: "distinct (map (\<lambda>r. snd (os ! r)) (length (objs s) # heap s))"
          using hd nh new by (simp add: kmap)
        have 6: "(\<lambda>r. snd (os ! r)) ` set (length (objs s) # heap s) \<subseteq> fst ` set tk'"
          using hs new kmap hr old by (auto simp: tk'_def dom_update)
        have "cands s'"
          unfolding s'_def by (rule candsI [OF 1 2 3 4 5 6])
        then show ?thesis
          using eq by (simp add: s'_def)
      next
        case False
        define new_pair where "new_pair = length (objs s)"
        define os where "os = objs s @ [(e, key)]"
        obtain hp old_pair where pp: "heappushpop (pair_lt os) (heap s) new_pair = (hp, old_pair)"
          by (cases "heappushpop (pair_lt os) (heap s) new_pair")
        have old: "os ! r = objs s ! r" if "r < length (objs s)" for r
          using that by (simp add: os_def nth_append)
        have new: "os ! new_pair = (e, key)"
          by (simp add: os_def new_pair_def)
        have kmap: "map (\<lambda>r. snd (os ! r)) (heap s) = map (\<lambda>r. snd (objs s ! r)) (heap s)"
          using hr old by simp
        from heappushpop_cases [OF pp]
        show ?thesis
        proof (elim disjE conjE)
          assume same: "old_pair = new_pair" "hp = heap s"
          define tk' where "tk' = AList.update key new_pair (top_k s)"
          define s' where "s' = s\<lparr>objs := os, heap := hp, top_k := tk'\<rparr>"
          have eq: "update_heap hash s key = Inr s'"
            using gate None False pp same
            by (simp add: update_heap_def e Let_def os_def [symmetric] new_pair_def [symmetric]
                tk'_def s'_def)
          have tk'_set: "set tk' \<subseteq> insert (key, new_pair) (set (top_k s))"
            unfolding tk'_def by (rule set_alist_update_subset)
          have 1: "distinct (map fst tk')"
            using dk by (simp add: tk'_def distinct_update)
          have 2: "\<forall>(x, r) \<in> set tk'. r < length os \<and> snd (os ! r) = x"
          proof (clarify)
            fix x r assume "(x, r) \<in> set tk'"
            with tk'_set have "(x, r) = (key, new_pair) \<or> (x, r) \<in> set (top_k s)" by auto
            then show "r < length os \<and> snd (os ! r) = x"
              using tk new old by (auto simp: os_def new_pair_def)
          qed
          have 3: "mset hp = mset (heap s)"
            using same by simp
          have 4: "\<forall>r \<in> set (heap s). r < length os"
            using hr by (auto simp: os_def)
          have 5: "distinct (map (\<lambda>r. snd (os ! r)) (heap s))"
            using hd by (simp add: kmap)
          have "(\<lambda>r. snd (os ! r)) ` set (heap s) = (\<lambda>r. snd (objs s ! r)) ` set (heap s)"
            using hr old by (intro image_cong) auto
          then have 6: "(\<lambda>r. snd (os ! r)) ` set (heap s) \<subseteq> fst ` set tk'"
            using hs by (auto simp: tk'_def dom_update)
          have "cands s'"
            unfolding s'_def by (rule candsI [OF 1 2 3 4 5 6])
          then show ?thesis
            using eq by (simp add: s'_def)
        next
          assume ne: "heap s \<noteq> []" and op: "old_pair = heap s ! 0"
            and m: "mset hp = add_mset new_pair (mset (heap s) - {#heap s ! 0#})"
          obtain h0 rest where heap: "heap s = h0 # rest"
            using ne by (cases "heap s") auto
          have h0: "h0 < length (objs s)" and rest: "\<forall>r \<in> set rest. r < length (objs s)"
            using hr heap by simp_all
          define key0 where "key0 = snd (objs s ! h0)"
          have key0: "snd (os ! old_pair) = key0"
            using op heap h0 old by (simp add: key0_def)
          have key0_in: "key0 \<in> fst ` set (top_k s)"
            using hs heap by (auto simp: key0_def)
          then have neq: "key0 \<noteq> key" using nk by auto
          have mo: "map_of (top_k s) key0 \<noteq> None"
            using key0_in by (simp add: map_of_eq_None_iff)
          define m' where "m' = AList.delete key0 (top_k s)"
          define tk' where "tk' = AList.update key new_pair (AList.update key new_pair m')"
          define s' where "s' = s\<lparr>objs := os, heap := hp, top_k := tk'\<rparr>"
          have eq: "update_heap hash s key = Inr s'"
            using gate None False pp neq mo key0 new
            by (simp add: update_heap_def e Let_def os_def [symmetric] new_pair_def [symmetric]
                dict_del_def tk'_def m'_def s'_def)
          have upd_set: "set (AList.update key new_pair al) \<subseteq> insert (key, new_pair) (set al)" for al
            by (rule set_alist_update_subset)
          have m'_set: "set m' \<subseteq> set (top_k s)"
            by (auto simp: m'_def AList.delete_eq)
          have tk'_set: "set tk' \<subseteq> insert (key, new_pair) (set (top_k s))"
            using upd_set [of "AList.update key new_pair m'"] upd_set [of m'] m'_set
            unfolding tk'_def by blast
          have 1: "distinct (map fst tk')"
            using dk by (simp add: tk'_def m'_def distinct_update distinct_delete)
          have 2: "\<forall>(x, r) \<in> set tk'. r < length os \<and> snd (os ! r) = x"
          proof (clarify)
            fix x r assume "(x, r) \<in> set tk'"
            with tk'_set have "(x, r) = (key, new_pair) \<or> (x, r) \<in> set (top_k s)" by auto
            then show "r < length os \<and> snd (os ! r) = x"
              using tk new old by (auto simp: os_def new_pair_def)
          qed
          have 3: "mset hp = mset (new_pair # rest)"
            using m heap by simp
          have 4: "\<forall>r \<in> set (new_pair # rest). r < length os"
            using rest by (auto simp: os_def new_pair_def)
          have krest: "map (\<lambda>r. snd (os ! r)) rest = map (\<lambda>r. snd (objs s ! r)) rest"
            using rest old by simp
          have 5: "distinct (map (\<lambda>r. snd (os ! r)) (new_pair # rest))"
            using hd nh new heap by (simp add: krest)
          have dom: "fst ` set tk' = insert key (fst ` set (top_k s) - {key0})"
            using dk by (auto simp: tk'_def m'_def dom_update AList.delete_eq image_iff)
          have 6: "(\<lambda>r. snd (os ! r)) ` set (new_pair # rest) \<subseteq> fst ` set tk'"
          proof -
            have "snd (objs s ! r) \<in> fst ` set (top_k s) - {key0}" if "r \<in> set rest" for r
            proof -
              from hd heap have "snd (objs s ! h0) \<notin> (\<lambda>r. snd (objs s ! r)) ` set rest"
                by simp
              with that have "snd (objs s ! r) \<noteq> key0"
                unfolding key0_def by (metis imageI)
              moreover have "snd (objs s ! r) \<in> fst ` set (top_k s)"
                using that hs heap by auto
              ultimately show ?thesis by simp
            qed
            then have "snd (os ! r) \<in> fst ` set (top_k s) - {key0}" if "r \<in> set rest" for r
              using that rest old by simp
            then show ?thesis
              using new unfolding dom by auto
          qed
          have "cands s'"
            unfolding s'_def by (rule candsI [OF 1 2 3 4 5 6])
          then show ?thesis
            using eq by (simp add: s'_def)
        qed
      qed
    qed
  qed
qed

section \<open>Every update succeeds on a constructed sketch\<close>

lemma init_inv:
  assumes "init delta epsilon kk rnd = Inr s"
  shows "shape s" "cands s" "heap s = []" "top_k s = []" "objs s = []"
    "count s = replicate (nat (d s)) (replicate (nat (w s)) 0)"
proof -
  define W where "W = \<lceil>exp 1 / epsilon\<rceil>"
  define D where "D = \<lceil>ln (1 / delta)\<rceil>"
  from assms have p: "0 < delta" "delta < 1" "0 < epsilon" "epsilon < 1" "1 \<le> kk"
    and s: "s = \<lparr>w = W, d = D, k = kk,
          hash_functions = map (generate_hash_function rnd) [0..<nat D],
          count = replicate (nat D) (replicate (nat W) 0),
          heap = [], top_k = [], objs = []\<rparr>"
    by (simp_all add: init_Inr_iff W_def D_def)
  have w: "1 \<le> W" unfolding W_def using p by (intro init_w_ge_1)
  have d: "1 \<le> D" unfolding D_def using p by (intro init_d_ge_1)
  show "shape s" using w d p by (simp add: s shape_def)
  show "cands s" by (simp add: s cands_def heap_keys_def)
  show "heap s = []" "top_k s = []" "objs s = []" by (simp_all add: s)
  show "count s = replicate (nat (d s)) (replicate (nat (w s)) 0)" by (simp add: s)
qed

lemma update_step:
  assumes "shape s" "cands s"
  shows "\<exists>s'. update hash s key inc = Inr s' \<and> shape s' \<and> cands s'
    \<and> w s' = w s \<and> d s' = d s \<and> k s' = k s \<and> hash_functions s' = hash_functions s
    \<and> (\<forall>r c. r < nat (d s) \<longrightarrow> c < nat (w s) \<longrightarrow>
          count s' ! r ! c = count s ! r ! c +
            (if column_of s (hash_functions s ! r) \<bar>hash key\<bar> = int c then word_of_int inc else 0))"
proof -
  from assms(1) have sh: "1 \<le> w s" "\<forall>row \<in> set (count s). int (length row) = w s"
    "0 + length (hash_functions s) \<le> length (count s)"
    and len: "length (hash_functions s) = nat (d s)" "length (count s) = nat (d s)"
    by (auto simp: shape_def)
  from update_rows_cells [OF sh, of hash key inc]
  obtain cnt where cnt: "update_rows hash s key inc (enumerate 0 (hash_functions s)) = Inr (s\<lparr>count := cnt\<rparr>)"
    "length cnt = length (count s)" "\<forall>row \<in> set cnt. int (length row) = w s"
    "\<And>r c. r < length cnt \<Longrightarrow> c < nat (w s) \<Longrightarrow>
            cnt ! r ! c = count s ! r ! c +
              (if 0 \<le> r \<and> r < 0 + length (hash_functions s) \<and> column_of s (hash_functions s ! (r - 0)) \<bar>hash key\<bar> = int c
               then word_of_int inc else 0)"
    by blast
  define s1 where "s1 = s\<lparr>count := cnt\<rparr>"
  have sh1: "shape s1"
    using assms(1) cnt(2,3) by (simp add: shape_def s1_def)
  have c1: "cands s1"
    using assms(2) by (simp add: cands_def heap_keys_def s1_def)
  from update_heap_inv [OF sh1 c1, of hash key]
  obtain s' where s': "update_heap hash s1 key = Inr s'" "cands s'" "count s' = count s1"
    "w s' = w s1" "d s' = d s1" "k s' = k s1" "hash_functions s' = hash_functions s1"
    by blast
  have "update hash s key inc = Inr s'"
    using cnt(1) s'(1) by (simp add: update_def s1_def)
  moreover have "shape s'"
    using sh1 s' by (simp add: shape_def)
  moreover have "count s' ! r ! c = count s ! r ! c +
            (if column_of s (hash_functions s ! r) \<bar>hash key\<bar> = int c then word_of_int inc else 0)"
    if "r < nat (d s)" "c < nat (w s)" for r c
    using cnt(4) [of r c] that cnt(2) len s'(3) by (simp add: s1_def)
  ultimately show ?thesis
    using s' by (intro exI [of _ s']) (simp add: s1_def)
qed

lemma cell_total_Cons:
  "cell_total hash s r c ((key, inc) # ups) =
     (if column_of s (hash_functions s ! r) \<bar>hash key\<bar> = c then inc else 0) + cell_total hash s r c ups"
  by (simp add: cell_total_def)

lemma cell_total_cong:
  "w s' = w s \<Longrightarrow> hash_functions s' = hash_functions s \<Longrightarrow> cell_total hash s' = cell_total hash s"
  by (simp add: cell_total_def column_of_def fun_eq_iff)

lemma run_steps:
  assumes "shape s" "cands s"
  shows "\<exists>s'. run hash s ups = Inr s' \<and> shape s' \<and> cands s'
    \<and> w s' = w s \<and> d s' = d s \<and> k s' = k s \<and> hash_functions s' = hash_functions s
    \<and> (\<forall>r c. r < nat (d s) \<longrightarrow> c < nat (w s) \<longrightarrow>
          count s' ! r ! c = count s ! r ! c + word_of_int (cell_total hash s r (int c) ups))"
  using assms
proof (induction ups arbitrary: s)
  case Nil
  then show ?case by (simp add: cell_total_def)
next
  case (Cons u ups)
  obtain key inc where u: "u = (key, inc)" by (cases u)
  from update_step [OF Cons.prems, of hash key inc]
  obtain s1 where s1: "update hash s key inc = Inr s1" "shape s1" "cands s1"
    "w s1 = w s" "d s1 = d s" "k s1 = k s" "hash_functions s1 = hash_functions s"
    "\<And>r c. r < nat (d s) \<Longrightarrow> c < nat (w s) \<Longrightarrow>
          count s1 ! r ! c = count s ! r ! c +
            (if column_of s (hash_functions s ! r) \<bar>hash key\<bar> = int c then word_of_int inc else 0)"
    by blast
  from Cons.IH [OF s1(2,3)]
  obtain s' where s': "run hash s1 ups = Inr s'" "shape s'" "cands s'"
    "w s' = w s1" "d s' = d s1" "k s' = k s1" "hash_functions s' = hash_functions s1"
    "\<And>r c. r < nat (d s1) \<Longrightarrow> c < nat (w s1) \<Longrightarrow>
          count s' ! r ! c = count s1 ! r ! c + word_of_int (cell_total hash s1 r (int c) ups)"
    by blast
  have ct: "cell_total hash s1 = cell_total hash s"
    using s1 by (intro cell_total_cong) simp_all
  have "count s' ! r ! c = count s ! r ! c + word_of_int (cell_total hash s r (int c) (u # ups))"
    if "r < nat (d s)" "c < nat (w s)" for r c
    using s'(8) [of r c] s1(8) [of r c] that s1(4,5)
    by (simp add: u cell_total_Cons ct)
  moreover have "run hash s (u # ups) = Inr s'"
    using s1(1) s'(1) by (simp add: u)
  ultimately show ?case
    using s' s1 by (intro exI [of _ s']) simp
qed

lemma feed_eq_run: "feed hash s f = run hash s (map (\<lambda>x. (x, 1)) f)"
proof (induction f arbitrary: s)
  case Nil
  then show ?case by simp
next
  case (Cons x f)
  show ?case
    by (cases "update hash s x 1") (simp_all add: observe_def Cons.IH)
qed

lemma reach_inv:
  assumes "init delta epsilon kk rnd = Inr s0" "run hash s0 ups = Inr s"
  shows "shape s" "cands s"
  using run_steps [OF init_inv(1,2) [OF assms(1)], of hash ups] assms(2) by auto

text \<open>
  Claim C8. On a sketch constructed with valid parameters, after any sequence of update
  calls (of any keys, with increments that fit 64 bits; observe is the call with
  increment 1): every hash function of the sketch maps every hashed
  key to a column in [0, w); the estimate of any key is returned without error; and
  feeding any further stream of keys, one observe call each, and listing the candidates
  returns without error. No index into the counter grid is out of bounds and no key is
  missing from the dictionary when it is deleted.
\<close>

theorem total_after_construction:
  assumes "init delta epsilon kk rnd = Inr s0"
    and "increments_fit ups"
  shows "\<exists>s. run hash s0 ups = Inr s
    \<and> (\<forall>hash_function \<in> set (hash_functions s). \<forall>x.
          \<exists>column. apply_hash_function s hash_function x = Inr column \<and> 0 \<le> column \<and> column < w s)
    \<and> (\<exists>estimate. get hash s key = Inr estimate)
    \<and> (\<exists>s'. CM_top_users hash f s top_n = Inr (s', take (nat top_n) (snapshot s')))"
proof -
  from run_steps [OF init_inv(1,2) [OF assms(1)], of hash ups]
  obtain s where s: "run hash s0 ups = Inr s" "shape s" "cands s" by blast
  from s(2) have w: "1 \<le> w s" by (simp add: shape_def)
  have "\<exists>column. apply_hash_function s hf x = Inr column \<and> 0 \<le> column \<and> column < w s" for hf x
    using apply_hash_function_eq [OF w] column_of_range [OF w] by blast
  moreover have "\<exists>estimate. get hash s key = Inr estimate"
    using get_eq [OF s(2)] by blast
  moreover from run_steps [OF s(2,3), of hash "map (\<lambda>x. (x, 1)) f"]
  have "\<exists>s'. CM_top_users hash f s top_n = Inr (s', take (nat top_n) (snapshot s'))"
    by (auto simp: CM_top_users_def feed_eq_run)
  ultimately show ?thesis
    using s(1) by blast
qed

theorem total_after_construction_witness:
  "\<exists>s. run ord_hash (sketch_half 1 rnd1) [(''B'', 1), (''A'', 1)] = Inr s
    \<and> (\<exists>column. apply_hash_function s (1, 1) \<bar>ord_hash ''A''\<bar> = Inr column \<and> 0 \<le> column \<and> column < w s)
    \<and> (\<exists>estimate. get ord_hash s ''A'' = Inr estimate)
    \<and> (\<exists>s'. CM_top_users ord_hash [''C'', ''C''] s 10 = Inr (s', take (nat 10) (snapshot s')))"
proof -
  have a: "init (1/2) (1/2) 1 rnd1 = Inr (sketch_half 1 rnd1)"
    by (simp add: init_half)
  have b: "increments_fit [(''B'', 1), (''A'', 1)]"
    by (simp add: increments_fit_def)
  from total_after_construction [OF a b, of ord_hash "''A''" "[''C'', ''C'']" 10]
  obtain s where s: "run ord_hash (sketch_half 1 rnd1) [(''B'', 1), (''A'', 1)] = Inr s"
    "\<forall>hash_function \<in> set (hash_functions s). \<forall>x.
          \<exists>column. apply_hash_function s hash_function x = Inr column \<and> 0 \<le> column \<and> column < w s"
    "\<exists>estimate. get ord_hash s ''A'' = Inr estimate"
    "\<exists>s'. CM_top_users ord_hash [''C'', ''C''] s 10 = Inr (s', take (nat 10) (snapshot s'))"
    by blast
  have "run ord_hash (sketch_half 1 rnd1) [(''B'', 1), (''A'', 1)]
    = Inr \<lparr>w = 6, d = 1, k = 1, hash_functions = [(1, 1)],
          count = [[1, 1, 0, 0, 0, 0]], heap = [0],
          top_k = [(''B'', 1), (''A'', 2)],
          objs = [(1, ''B''), (1, ''B''), (1, ''A'')]\<rparr>"
    by code_simp
  with s(1) have "hash_functions s = [(1, 1)]" by auto
  with s(2) have "\<exists>column. apply_hash_function s (1, 1) \<bar>ord_hash ''A''\<bar> = Inr column \<and> 0 \<le> column \<and> column < w s"
    by simp
  with s show ?thesis by blast
qed

lemma fold_min_const:
  "xs \<noteq> [] \<Longrightarrow> \<forall>x \<in> set xs. x = a \<Longrightarrow> a \<le> v \<Longrightarrow> fold min xs v = (a::int)"
proof (induction xs arbitrary: v)
  case Nil
  then show ?case by simp
next
  case (Cons x xs)
  then show ?case by (cases xs) (auto simp: min_def)
qed

lemma in_cells_of:
  "x \<in> set (cells_of hash s key) \<longleftrightarrow>
     (\<exists>r < length (hash_functions s).
        x = sint (count s ! r ! nat (column_of s (hash_functions s ! r) \<bar>hash key\<bar>)))"
  by (auto simp: cells_of_def in_set_enumerate_eq image_iff Bex_def)

text \<open>
  Claim C10. On a freshly constructed sketch the estimate of every key is 0 (not
  \<^verbatim>\<open>sys.maxsize\<close>, the initial value of the minimum: there is at least one row and
  every counter is zero), the heap and the dictionary are empty, and the ordered candidate
  list is empty.
\<close>

theorem fresh_sketch:
  assumes "init delta epsilon kk rnd = Inr s"
  shows "get hash s key = Inr 0 \<and> heap s = [] \<and> top_k s = [] \<and> snapshot s = []"
proof -
  note inv = init_inv [OF assms]
  from inv(1) have w: "1 \<le> w s" and d: "1 \<le> d s" and len: "length (hash_functions s) = nat (d s)"
    by (auto simp: shape_def)
  have "cells_of hash s key \<noteq> []"
    using d len by (auto simp: cells_of_def enumerate_eq_zip)
  moreover have "\<forall>x \<in> set (cells_of hash s key). x = 0"
  proof
    fix x assume "x \<in> set (cells_of hash s key)"
    then obtain r where r: "r < nat (d s)"
      "x = sint (count s ! r ! nat (column_of s (hash_functions s ! r) \<bar>hash key\<bar>))"
      using len by (auto simp: in_cells_of)
    have "nat (column_of s (hash_functions s ! r) \<bar>hash key\<bar>) < nat (w s)"
      using column_of_range [OF w, of "hash_functions s ! r" "\<bar>hash key\<bar>"] by linarith
    then show "x = 0"
      using r by (simp add: inv(6))
  qed
  ultimately have "fold min (cells_of hash s key) sys_maxsize = 0"
    by (rule fold_min_const) (simp add: sys_maxsize_def)
  then show ?thesis
    using get_eq [OF inv(1), of hash key] inv by (simp add: snapshot_def top_k_values_def)
qed

theorem fresh_sketch_witness:
  "init (1/2) (1/2) 1 rnd1 = Inr (sketch_half 1 rnd1)
   \<and> get ord_hash (sketch_half 1 rnd1) ''A'' = Inr 0
   \<and> heap (sketch_half 1 rnd1) = [] \<and> top_k (sketch_half 1 rnd1) = []
   \<and> snapshot (sketch_half 1 rnd1) = []"
proof -
  have a: "init (1/2) (1/2) 1 rnd1 = Inr (sketch_half 1 rnd1)"
    by (simp add: init_half)
  from fresh_sketch [OF a, of ord_hash "''A''"] a
  show ?thesis by blast
qed

section \<open>The counters\<close>

lemma sint_word_of_int_32:
  "- (2 ^ 31) \<le> x \<Longrightarrow> x < 2 ^ 31 \<Longrightarrow> sint (word_of_int x :: 32 word) = x"
  by (simp add: sint_sbintrunc' signed_take_bit_int_eq_self)

lemma sint_plus_1_32:
  assumes "sint (x :: 32 word) < 2 ^ 31 - 1"
  shows "sint (x + 1) = sint x + 1"
proof -
  have "- (2 ^ 31) \<le> sint x" using sint_ge [of x] by simp
  then have "sint (word_of_int (sint x + 1) :: 32 word) = sint x + 1"
    using assms by (intro sint_word_of_int_32) simp_all
  then show ?thesis by simp
qed

lemma fold_min_ge:
  "\<forall>x \<in> set xs. a \<le> x \<Longrightarrow> a \<le> v \<Longrightarrow> a \<le> fold min xs (v::int)"
  by (induction xs arbitrary: v) simp_all

lemma fold_min_map_mono:
  "\<forall>x \<in> set L. f x \<le> g x \<Longrightarrow> v \<le> v' \<Longrightarrow> fold min (map f L) v \<le> fold min (map g L) (v'::int)"
proof (induction L arbitrary: v v')
  case Nil
  then show ?case by simp
next
  case (Cons x L)
  have "min (f x) v \<le> min (g x) v'" using Cons.prems by (simp add: min_le_iff_disj)
  with Cons show ?case by simp
qed

lemma cell_total_nonneg:
  "\<forall>(x, i) \<in> set ups. 0 \<le> i \<Longrightarrow> 0 \<le> cell_total hash s r c ups"
  by (induction ups) (auto simp: cell_total_def)

lemma cell_total_le_total_count:
  "\<forall>(x, i) \<in> set ups. 0 \<le> i \<Longrightarrow> cell_total hash s r c ups \<le> total_count ups"
  by (induction ups) (auto simp: cell_total_def total_count_def)

lemma true_count_le_cell_total:
  "\<forall>(x, i) \<in> set ups. 0 \<le> i
   \<Longrightarrow> true_count key ups \<le> cell_total hash s r (column_of s (hash_functions s ! r) \<bar>hash key\<bar>) ups"
  by (induction ups) (auto simp: cell_total_def true_count_def)

lemma run_from_init:
  assumes "init delta epsilon kk rnd = Inr s0"
  shows "\<exists>s. run hash s0 ups = Inr s \<and> shape s \<and> cands s
    \<and> w s = w s0 \<and> d s = d s0 \<and> k s = k s0 \<and> hash_functions s = hash_functions s0
    \<and> (\<forall>r c. r < nat (d s0) \<longrightarrow> c < nat (w s0) \<longrightarrow>
          count s ! r ! c = word_of_int (cell_total hash s0 r (int c) ups))"
proof -
  note inv = init_inv [OF assms]
  from run_steps [OF inv(1,2), of hash ups]
  obtain s where s: "run hash s0 ups = Inr s" "shape s" "cands s"
    "w s = w s0" "d s = d s0" "k s = k s0" "hash_functions s = hash_functions s0"
    "\<And>r c. r < nat (d s0) \<Longrightarrow> c < nat (w s0) \<Longrightarrow>
          count s ! r ! c = count s0 ! r ! c + word_of_int (cell_total hash s0 r (int c) ups)"
    by blast
  have "count s ! r ! c = word_of_int (cell_total hash s0 r (int c) ups)"
    if "r < nat (d s0)" "c < nat (w s0)" for r c
    using s(8) [OF that] that by (simp add: inv(6))
  with s show ?thesis by blast
qed


text \<open>
  Claim C6 as stated: every counter holds the exact sum of the increments hashed to it,
  or the update fails with an overflow error. It fails on the code. After
  \<^verbatim>\<open>update('A', 2147483647)\<close> and \<^verbatim>\<open>update('A', 1)\<close> both calls have returned
  normally, the increments hashed to counter (0, 0) sum to 2147483648, and the counter
  holds the 32-bit pattern 2147483648, which reads as -2147483648.
\<close>

theorem counter_wraps_silently:
  "init (1/2) (1/2) 1 rnd1 = Inr (sketch_half 1 rnd1)
   \<and> run ord_hash (sketch_half 1 rnd1) [(''A'', 2147483647), (''A'', 1)]
       = Inr \<lparr>w = 6, d = 1, k = 1, hash_functions = [(1, 1)],
              count = [[2147483648, 0, 0, 0, 0, 0]], heap = [0], top_k = [(''A'', 1)],
              objs = [(2147483647, ''A''), (2147483647, ''A'')]\<rparr>
   \<and> sint (2147483648 :: 32 word) = - 2147483648
   \<and> cell_total ord_hash (sketch_half 1 rnd1) 0 0 [(''A'', 2147483647), (''A'', 1)] = 2147483648"
  apply (intro conjI)
     apply (simp add: init_half)
    apply code_simp
   apply simp
  apply code_simp
  done

text \<open>
  Claim C6, amended. No update fails on a constructed sketch, and after any sequence of
  updates (with increments that fit 64 bits) every counter holds the sum of the increments hashed to it reduced to a signed
  32-bit value (two's complement, modulo 2^32); it holds the exact sum whenever that sum
  lies in [-2^31, 2^31).
\<close>

theorem counters_hold_sums_modulo:
  assumes "init delta epsilon kk rnd = Inr s0"
    and "increments_fit ups"
  shows "\<exists>s. run hash s0 ups = Inr s
    \<and> (\<forall>row c. row < nat (d s0) \<and> c < nat (w s0) \<longrightarrow>
          sint (count s ! row ! c) = signed_take_bit 31 (cell_total hash s0 row (int c) ups)
          \<and> (- (2 ^ 31) \<le> cell_total hash s0 row (int c) ups
               \<and> cell_total hash s0 row (int c) ups < 2 ^ 31
             \<longrightarrow> sint (count s ! row ! c) = cell_total hash s0 row (int c) ups))"
proof -
  from run_from_init [OF assms(1), of hash ups]
  obtain s where s: "run hash s0 ups = Inr s"
    "\<And>r c. r < nat (d s0) \<Longrightarrow> c < nat (w s0) \<Longrightarrow>
          count s ! r ! c = word_of_int (cell_total hash s0 r (int c) ups)"
    by blast
  have "sint (count s ! row ! c) = signed_take_bit 31 (cell_total hash s0 row (int c) ups)
          \<and> (- (2 ^ 31) \<le> cell_total hash s0 row (int c) ups
               \<and> cell_total hash s0 row (int c) ups < 2 ^ 31
             \<longrightarrow> sint (count s ! row ! c) = cell_total hash s0 row (int c) ups)"
    if "row < nat (d s0)" "c < nat (w s0)" for row c
  proof (intro conjI impI)
    show "sint (count s ! row ! c) = signed_take_bit 31 (cell_total hash s0 row (int c) ups)"
      using s(2) [OF that] by (simp add: sint_sbintrunc')
  next
    assume "- (2 ^ 31) \<le> cell_total hash s0 row (int c) ups
               \<and> cell_total hash s0 row (int c) ups < 2 ^ 31"
    then show "sint (count s ! row ! c) = cell_total hash s0 row (int c) ups"
      unfolding s(2) [OF that] by (intro sint_word_of_int_32) simp_all
  qed
  with s(1) show ?thesis by blast
qed


theorem counters_hold_sums_modulo_witness:
  "\<exists>s. run ord_hash (sketch_half 1 rnd1) [(''A'', 2), (''B'', 3)] = Inr s
     \<and> sint (count s ! 0 ! 0) = 2 \<and> sint (count s ! 0 ! 1) = 3 \<and> sint (count s ! 0 ! 2) = 0"
proof -
  have a: "init (1/2) (1/2) 1 rnd1 = Inr (sketch_half 1 rnd1)"
    by (simp add: init_half)
  have b: "increments_fit [(''A'', 2), (''B'', 3)]"
    by (simp add: increments_fit_def)
  have c: "cell_total ord_hash (sketch_half 1 rnd1) 0 (int 0) [(''A'', 2), (''B'', 3)] = 2"
    "cell_total ord_hash (sketch_half 1 rnd1) 0 (int 1) [(''A'', 2), (''B'', 3)] = 3"
    "cell_total ord_hash (sketch_half 1 rnd1) 0 (int 2) [(''A'', 2), (''B'', 3)] = 0"
    by (simp_all add: cell_total_def column_of_def sketch_half_def ord_hash_def rnd1_def
        BIG_PRIME_def)
  have r: "(0::nat) < nat (d (sketch_half 1 rnd1))" "(0::nat) < nat (w (sketch_half 1 rnd1))"
    "(1::nat) < nat (w (sketch_half 1 rnd1))" "(2::nat) < nat (w (sketch_half 1 rnd1))"
    by (simp_all add: sketch_half_def)
  from counters_hold_sums_modulo [OF a b, of ord_hash]
  obtain s where s: "run ord_hash (sketch_half 1 rnd1) [(''A'', 2), (''B'', 3)] = Inr s"
    "\<And>row c. row < nat (d (sketch_half 1 rnd1)) \<and> c < nat (w (sketch_half 1 rnd1)) \<Longrightarrow>
       - (2 ^ 31) \<le> cell_total ord_hash (sketch_half 1 rnd1) row (int c) [(''A'', 2), (''B'', 3)]
        \<and> cell_total ord_hash (sketch_half 1 rnd1) row (int c) [(''A'', 2), (''B'', 3)] < 2 ^ 31
       \<Longrightarrow> sint (count s ! row ! c)
             = cell_total ord_hash (sketch_half 1 rnd1) row (int c) [(''A'', 2), (''B'', 3)]"
    by blast
  from s(2) [of 0 0] s(2) [of 0 1] s(2) [of 0 2] r
  have "sint (count s ! 0 ! 0) = 2" "sint (count s ! 0 ! 1) = 3" "sint (count s ! 0 ! 2) = 0"
    unfolding c by simp_all
  with s(1) show ?thesis by blast
qed

section \<open>The estimate\<close>

text \<open>
  Claim C3 as stated: for every sequence of updates with positive increments the estimate
  of a key is at least its true count. It fails on the code. After
  \<^verbatim>\<open>update('A', 2147483647)\<close> and \<^verbatim>\<open>update('A', 1)\<close> the true count of 'A' is
  2147483648 and \<^verbatim>\<open>get('A')\<close> returns -2147483648: the counter has wrapped.
\<close>

theorem estimate_below_true_count:
  "init (1/2) (1/2) 1 rnd1 = Inr (sketch_half 1 rnd1)
   \<and> run ord_hash (sketch_half 1 rnd1) [(''A'', 2147483647), (''A'', 1)]
       = Inr \<lparr>w = 6, d = 1, k = 1, hash_functions = [(1, 1)],
              count = [[2147483648, 0, 0, 0, 0, 0]], heap = [0], top_k = [(''A'', 1)],
              objs = [(2147483647, ''A''), (2147483647, ''A'')]\<rparr>
   \<and> get ord_hash
         \<lparr>w = 6, d = 1, k = 1, hash_functions = [(1, 1)],
          count = [[2147483648, 0, 0, 0, 0, 0]], heap = [0], top_k = [(''A'', 1)],
          objs = [(2147483647, ''A''), (2147483647, ''A'')]\<rparr> ''A'' = Inr (- 2147483648)
   \<and> true_count ''A'' [(''A'', 2147483647), (''A'', 1)] = 2147483648"
  apply (intro conjI)
     apply (simp add: init_half)
    apply code_simp
   apply code_simp
  apply (simp add: true_count_def)
  done

lemma estimate_lower_bound:
  assumes "init delta epsilon kk rnd = Inr s0"
    and "\<forall>(x, i) \<in> set ups. 0 < i"
    and "\<forall>row < nat (d s0).
           cell_total hash s0 row (column_of s0 (hash_functions s0 ! row) \<bar>hash key\<bar>) ups < 2 ^ 31"
    and "increments_fit ups"
  shows "\<exists>s estimate. run hash s0 ups = Inr s \<and> get hash s key = Inr estimate
    \<and> true_count key ups \<le> estimate"
proof -
  from run_from_init [OF assms(1), of hash ups]
  obtain s where s: "run hash s0 ups = Inr s" "shape s"
    "w s = w s0" "d s = d s0" "hash_functions s = hash_functions s0"
    "\<And>r c. r < nat (d s0) \<Longrightarrow> c < nat (w s0) \<Longrightarrow>
          count s ! r ! c = word_of_int (cell_total hash s0 r (int c) ups)"
    by blast
  from s(2) have w: "1 \<le> w s" and d: "1 \<le> d s" and len: "length (hash_functions s) = nat (d s)"
    by (auto simp: shape_def)
  have nonneg: "\<forall>(x, i) \<in> set ups. 0 \<le> i"
    using assms(2) by fastforce
  have "true_count key ups \<le> x" if "x \<in> set (cells_of hash s key)" for x
  proof -
    from that obtain r where r: "r < nat (d s0)"
      "x = sint (count s ! r ! nat (column_of s (hash_functions s ! r) \<bar>hash key\<bar>))"
      using len s(4) by (auto simp: in_cells_of)
    define c where "c = column_of s0 (hash_functions s0 ! r) \<bar>hash key\<bar>"
    have c_eq: "column_of s (hash_functions s ! r) \<bar>hash key\<bar> = c"
      using s(3,5) by (simp add: c_def column_of_def)
    have c: "0 \<le> c" "c < w s0"
      using column_of_range [OF w, of "hash_functions s ! r" "\<bar>hash key\<bar>"] c_eq s(3) by simp_all
    then have "count s ! r ! nat c = word_of_int (cell_total hash s0 r c ups)"
      using s(6) [of r "nat c"] r(1) by simp
    moreover have "0 \<le> cell_total hash s0 r c ups"
      using nonneg by (rule cell_total_nonneg)
    moreover have "cell_total hash s0 r c ups < 2 ^ 31"
      using assms(3) r(1) by (simp add: c_def)
    ultimately have "x = cell_total hash s0 r c ups"
      using r(2) c_eq by (simp add: sint_word_of_int_32)
    then show ?thesis
      using true_count_le_cell_total [OF nonneg, of key hash s0 r] by (simp add: c_def)
  qed
  moreover have "true_count key ups \<le> sys_maxsize"
  proof -
    have "0 < nat (d s0)" using d s(4) by simp
    with assms(3) have "cell_total hash s0 0 (column_of s0 (hash_functions s0 ! 0) \<bar>hash key\<bar>) ups < 2 ^ 31"
      by blast
    with true_count_le_cell_total [OF nonneg, of key hash s0 0]
    show ?thesis by (simp add: sys_maxsize_def)
  qed
  ultimately have "true_count key ups \<le> fold min (cells_of hash s key) sys_maxsize"
    by (intro fold_min_ge) simp_all
  then show ?thesis
    using s(1) get_eq [OF s(2), of hash key] by simp
qed


lemma cell_total_append:
  "cell_total hash s r c (xs @ ys) = cell_total hash s r c xs + cell_total hash s r c ys"
  by (simp add: cell_total_def)

lemma cell_total_take_le:
  assumes "\<forall>(x, i) \<in> set ups. 0 \<le> i"
  shows "cell_total hash s r c (take n ups) \<le> cell_total hash s r c ups"
proof -
  have "\<forall>(x, i) \<in> set (drop n ups). 0 \<le> i"
    using assms by (auto dest: in_set_dropD)
  then have "0 \<le> cell_total hash s r c (drop n ups)"
    by (rule cell_total_nonneg)
  moreover have "cell_total hash s r c ups
      = cell_total hash s r c (take n ups) + cell_total hash s r c (drop n ups)"
    using cell_total_append [of hash s r c "take n ups" "drop n ups"] by simp
  ultimately show ?thesis by simp
qed

text \<open>
  Claim C3, amended. On a constructed sketch, for every key and every sequence of updates
  with positive increments (that fit 64 bits) such that, in every row, the increments
  hashed to the key's counter sum to less than 2^31: at every point of the sequence, all
  updates so far have succeeded and the estimate of the key is at least its true count
  so far (the sum of the increments applied for exactly that key). The condition holds in
  particular when all increments together sum to at most 2^31 - 1
  (\<open>cell_total_le_total_count\<close>).
\<close>

theorem estimate_never_undercounts:
  assumes "init delta epsilon kk rnd = Inr s0"
    and "\<forall>(x, i) \<in> set ups. 0 < i"
    and "\<forall>row < nat (d s0).
           cell_total hash s0 row (column_of s0 (hash_functions s0 ! row) \<bar>hash key\<bar>) ups < 2 ^ 31"
    and "increments_fit ups"
  shows "\<forall>n \<le> length ups. \<exists>s estimate.
      run hash s0 (take n ups) = Inr s \<and> get hash s key = Inr estimate
      \<and> true_count key (take n ups) \<le> estimate"
proof (intro allI impI)
  fix n
  have nonneg: "\<forall>(x, i) \<in> set ups. 0 \<le> i"
    using assms(2) by fastforce
  have pos: "\<forall>(x, i) \<in> set (take n ups). 0 < i"
    using assms(2) by (auto dest: in_set_takeD)
  have fit: "increments_fit (take n ups)"
    using assms(4) by (auto simp: increments_fit_def dest: in_set_takeD)
  have bound: "\<forall>row < nat (d s0).
      cell_total hash s0 row (column_of s0 (hash_functions s0 ! row) \<bar>hash key\<bar>) (take n ups) < 2 ^ 31"
  proof (intro allI impI)
    fix row assume "row < nat (d s0)"
    with assms(3) have "cell_total hash s0 row
        (column_of s0 (hash_functions s0 ! row) \<bar>hash key\<bar>) ups < 2 ^ 31"
      by blast
    with cell_total_take_le [OF nonneg, of hash s0 row _ n]
    show "cell_total hash s0 row
        (column_of s0 (hash_functions s0 ! row) \<bar>hash key\<bar>) (take n ups) < 2 ^ 31"
      by (rule le_less_trans)
  qed
  show "\<exists>s estimate. run hash s0 (take n ups) = Inr s \<and> get hash s key = Inr estimate
      \<and> true_count key (take n ups) \<le> estimate"
    by (rule estimate_lower_bound [OF assms(1) pos bound fit])
qed

theorem estimate_never_undercounts_witness:
  "\<exists>s estimate. run ord_hash (sketch_half 1 rnd1) [(''A'', 2), (''B'', 3)] = Inr s
     \<and> get ord_hash s ''A'' = Inr estimate
     \<and> true_count ''A'' [(''A'', 2), (''B'', 3)] \<le> estimate"
proof -
  have a: "init (1/2) (1/2) 1 rnd1 = Inr (sketch_half 1 rnd1)"
    by (simp add: init_half)
  have b: "\<forall>(x, i) \<in> set [(''A'', 2), (''B'', 3), (''A'', 1)]. (0::int) < i"
    by simp
  have c: "\<forall>row < nat (d (sketch_half 1 rnd1)).
         cell_total ord_hash (sketch_half 1 rnd1) row
           (column_of (sketch_half 1 rnd1) (hash_functions (sketch_half 1 rnd1) ! row) \<bar>ord_hash ''A''\<bar>)
           [(''A'', 2), (''B'', 3), (''A'', 1)] < 2 ^ 31"
    by (simp add: sketch_half_def cell_total_def column_of_def ord_hash_def rnd1_def BIG_PRIME_def)
  have f: "increments_fit [(''A'', 2), (''B'', 3), (''A'', 1)]"
    by (simp add: increments_fit_def)
  from estimate_never_undercounts [OF a b c f, rule_format, of 2]
  have "\<exists>s estimate.
      run ord_hash (sketch_half 1 rnd1) (take 2 [(''A'', 2), (''B'', 3), (''A'', 1)]) = Inr s
      \<and> get ord_hash s ''A'' = Inr estimate
      \<and> true_count ''A'' (take 2 [(''A'', 2), (''B'', 3), (''A'', 1)]) \<le> estimate"
    by simp
  then show ?thesis by simp
qed

text \<open>
  Claim C4 as stated: after any single observe call the estimate of any key is at least
  what it was before. It fails on the code. In the state reached by
  \<^verbatim>\<open>update('A', 2147483647)\<close> the estimate of 'A' is 2147483647; after one more
  observe of 'A' it is -2147483648.
\<close>

theorem estimate_drops_on_overflow:
  "init (1/2) (1/2) 1 rnd1 = Inr (sketch_half 1 rnd1)
   \<and> update ord_hash (sketch_half 1 rnd1) ''A'' 2147483647
       = Inr \<lparr>w = 6, d = 1, k = 1, hash_functions = [(1, 1)],
              count = [[2147483647, 0, 0, 0, 0, 0]], heap = [0], top_k = [(''A'', 1)],
              objs = [(2147483647, ''A''), (2147483647, ''A'')]\<rparr>
   \<and> get ord_hash
         \<lparr>w = 6, d = 1, k = 1, hash_functions = [(1, 1)],
          count = [[2147483647, 0, 0, 0, 0, 0]], heap = [0], top_k = [(''A'', 1)],
          objs = [(2147483647, ''A''), (2147483647, ''A'')]\<rparr> ''A'' = Inr 2147483647
   \<and> observe ord_hash
         \<lparr>w = 6, d = 1, k = 1, hash_functions = [(1, 1)],
          count = [[2147483647, 0, 0, 0, 0, 0]], heap = [0], top_k = [(''A'', 1)],
          objs = [(2147483647, ''A''), (2147483647, ''A'')]\<rparr> ''A''
       = Inr \<lparr>w = 6, d = 1, k = 1, hash_functions = [(1, 1)],
              count = [[2147483648, 0, 0, 0, 0, 0]], heap = [0], top_k = [(''A'', 1)],
              objs = [(2147483647, ''A''), (2147483647, ''A'')]\<rparr>
   \<and> get ord_hash
         \<lparr>w = 6, d = 1, k = 1, hash_functions = [(1, 1)],
          count = [[2147483648, 0, 0, 0, 0, 0]], heap = [0], top_k = [(''A'', 1)],
          objs = [(2147483647, ''A''), (2147483647, ''A'')]\<rparr> ''A'' = Inr (- 2147483648)"
  apply (intro conjI)
      apply (simp add: init_half)
     apply code_simp
    apply code_simp
   apply code_simp
  apply code_simp
  done

text \<open>
  Claim C4, amended. In every state reached from a constructed sketch by updates (with
  increments that fit 64 bits), for
  every key and every observe call of a key none of whose counters holds 2^31 - 1 (the
  largest 32-bit value): the call succeeds and the estimate of the key after the call is
  at least its estimate before the call. This covers observing the key itself and
  observing any other key.
\<close>

theorem estimate_monotone_without_overflow:
  assumes "init delta epsilon kk rnd = Inr s0"
    and "run hash s0 ups = Inr s"
    and "\<forall>x \<in> set (cells_of hash s observed). x \<noteq> 2 ^ 31 - 1"
    and "increments_fit ups"
  shows "\<exists>s' before after. observe hash s observed = Inr s'
    \<and> get hash s key = Inr before \<and> get hash s' key = Inr after \<and> before \<le> after"
proof -
  note inv = reach_inv [OF assms(1,2)]
  from inv(1) have w: "1 \<le> w s" and len: "length (hash_functions s) = nat (d s)"
    by (auto simp: shape_def)
  from update_step [OF inv, of hash observed 1]
  obtain s' where s': "update hash s observed 1 = Inr s'" "shape s'"
    "w s' = w s" "d s' = d s" "hash_functions s' = hash_functions s"
    "\<And>r c. r < nat (d s) \<Longrightarrow> c < nat (w s) \<Longrightarrow>
          count s' ! r ! c = count s ! r ! c +
            (if column_of s (hash_functions s ! r) \<bar>hash observed\<bar> = int c then word_of_int 1 else 0)"
    by blast
  have col: "column_of s' = column_of s"
    using s'(3) by (simp add: column_of_def fun_eq_iff)
  define f where "f = (\<lambda>(row, hash_function).
     sint (count s ! row ! nat (column_of s hash_function \<bar>hash key\<bar>)))"
  define g where "g = (\<lambda>(row, hash_function).
     sint (count s' ! row ! nat (column_of s hash_function \<bar>hash key\<bar>)))"
  have cells: "cells_of hash s key = map f (enumerate 0 (hash_functions s))"
    "cells_of hash s' key = map g (enumerate 0 (hash_functions s))"
    by (simp_all add: cells_of_def f_def g_def col s'(5))
  have "f p \<le> g p" if "p \<in> set (enumerate 0 (hash_functions s))" for p
  proof -
    obtain r hf where p: "p = (r, hf)" by (cases p)
    with that have r: "r < nat (d s)" and hf: "hf = hash_functions s ! r"
      using len by (auto simp: in_set_enumerate_eq)
    define c where "c = column_of s hf \<bar>hash key\<bar>"
    have c: "0 \<le> c" "c < w s"
      using column_of_range [OF w, of hf "\<bar>hash key\<bar>"] by (simp_all add: c_def)
    then have step: "count s' ! r ! nat c = count s ! r ! nat c +
      (if column_of s hf \<bar>hash observed\<bar> = c then 1 else 0)"
      using s'(6) [of r "nat c"] r hf by simp
    show ?thesis
    proof (cases "column_of s hf \<bar>hash observed\<bar> = c")
      case True
      have "sint (count s ! r ! nat c) \<in> set (cells_of hash s observed)"
        using r len hf True by (auto simp: in_cells_of)
      with assms(3) have "sint (count s ! r ! nat c) \<noteq> 2 ^ 31 - 1" by blast
      moreover have "sint (count s ! r ! nat c) < 2 ^ 31"
        using sint_lt [of "count s ! r ! nat c"] by simp
      ultimately have "sint (count s ! r ! nat c) < 2 ^ 31 - 1" by simp
      then have "sint (count s ! r ! nat c + 1) = sint (count s ! r ! nat c) + 1"
        by (rule sint_plus_1_32)
      with True step show ?thesis
        by (simp add: p f_def g_def c_def)
    next
      case False
      with step show ?thesis
        by (simp add: p f_def g_def c_def)
    qed
  qed
  then have "fold min (cells_of hash s key) sys_maxsize \<le> fold min (cells_of hash s' key) sys_maxsize"
    unfolding cells by (intro fold_min_map_mono) simp_all
  then show ?thesis
    using s'(1) get_eq [OF inv(1), of hash key] get_eq [OF s'(2), of hash key]
    by (simp add: observe_def)
qed

theorem estimate_monotone_without_overflow_witness:
  "\<exists>s' before after.
     observe ord_hash (sketch_after_A 1) ''A'' = Inr s'
     \<and> get ord_hash (sketch_after_A 1) ''A'' = Inr before
     \<and> get ord_hash s' ''A'' = Inr after \<and> before \<le> after"
proof -
  have a: "init (1/2) (1/2) 1 rnd1 = Inr (sketch_half 1 rnd1)"
    by (simp add: init_half)
  have b: "run ord_hash (sketch_half 1 rnd1) [(''A'', 1)] = Inr (sketch_after_A 1)"
    by code_simp
  have c: "\<forall>x \<in> set (cells_of ord_hash (sketch_after_A 1) ''A''). x \<noteq> 2 ^ 31 - 1"
    by (simp add: sketch_after_A_def cells_of_def column_of_def ord_hash_def BIG_PRIME_def
        enumerate_eq_zip)
  have f: "increments_fit [(''A'', 1)]"
    by (simp add: increments_fit_def)
  show ?thesis
    by (rule estimate_monotone_without_overflow [OF a b c f])
qed

section \<open>Admission of a new candidate\<close>

lemma get_rows_cong:
  "w s' = w s \<Longrightarrow> count s' = count s
   \<Longrightarrow> get_rows hash s' key v rows = get_rows hash s key v rows"
  by (induction rows arbitrary: v) (auto simp: apply_hash_function_def)

lemma get_cong:
  "w s' = w s \<Longrightarrow> count s' = count s \<Longrightarrow> hash_functions s' = hash_functions s
   \<Longrightarrow> get hash s' key = get hash s key"
  by (simp add: get_def get_rows_cong [of s' s])

lemma alist_update_new:
  "map_of al x = None \<Longrightarrow> AList.update x v al = al @ [(x, v)]"
  by (induction al) (auto simp: AList.update.simps split: if_splits)


text \<open>
  Claim C1 as stated: whenever the candidate set has fewer than k members, observing a
  key that is not a candidate inserts it. It fails on the code. With k = 2, after
  \<^verbatim>\<open>update('A', 2)\<close> the only candidate is 'A' with estimate 2; observing 'B', whose
  estimate then is 1, changes the counters only: the whole reconciliation is guarded by
  \<^verbatim>\<open>if not self.heap or estimate >= self.heap[0][0]\<close>, and 1 < 2.
\<close>

theorem observe_skips_small_estimate:
  "init (1/2) (1/2) 2 rnd1 = Inr (sketch_half 2 rnd1)
   \<and> update ord_hash (sketch_half 2 rnd1) ''A'' 2
       = Inr \<lparr>w = 6, d = 1, k = 2, hash_functions = [(1, 1)],
              count = [[2, 0, 0, 0, 0, 0]], heap = [0], top_k = [(''A'', 1)],
              objs = [(2, ''A''), (2, ''A'')]\<rparr>
   \<and> observe ord_hash
         \<lparr>w = 6, d = 1, k = 2, hash_functions = [(1, 1)],
          count = [[2, 0, 0, 0, 0, 0]], heap = [0], top_k = [(''A'', 1)],
          objs = [(2, ''A''), (2, ''A'')]\<rparr> ''B''
       = Inr \<lparr>w = 6, d = 1, k = 2, hash_functions = [(1, 1)],
              count = [[2, 1, 0, 0, 0, 0]], heap = [0], top_k = [(''A'', 1)],
              objs = [(2, ''A''), (2, ''A'')]\<rparr>
   \<and> get ord_hash
         \<lparr>w = 6, d = 1, k = 2, hash_functions = [(1, 1)],
          count = [[2, 1, 0, 0, 0, 0]], heap = [0], top_k = [(''A'', 1)],
          objs = [(2, ''A''), (2, ''A'')]\<rparr> ''B'' = Inr 1"
  apply (intro conjI)
     apply (simp add: init_half)
    apply code_simp
   apply code_simp
  apply code_simp
  done

text \<open>
  Claim C1, amended. In every state reached from a constructed sketch by updates (with
  increments that fit 64 bits) in which the candidate set has fewer than k members, observing a key that is not in the
  candidate set succeeds, and with estimate the freshly recomputed estimate of the key:
  if the heap is empty or estimate is at least the estimate at the root of the heap, then
  the pair (estimate, key) is added to the heap (the other entries stay) and to the
  mapping (as its last entry, the other entries stay); otherwise the heap and the mapping
  are left as they were.
\<close>

theorem observe_inserts_when_room:
  assumes "init delta epsilon kk rnd = Inr s0"
    and "run hash s0 ups = Inr s"
    and "int (length (top_k s)) < k s"
    and "map_of (top_k s) key = None"
    and "increments_fit ups"
  shows "\<exists>s' estimate. observe hash s key = Inr s' \<and> get hash s' key = Inr estimate
    \<and> (heap s = [] \<or> fst (hd (heap_pairs s)) \<le> estimate \<longrightarrow>
          mset (heap_pairs s') = add_mset (estimate, key) (mset (heap_pairs s))
          \<and> top_k_items s' = top_k_items s @ [(key, (estimate, key))])
    \<and> (\<not> (heap s = [] \<or> fst (hd (heap_pairs s)) \<le> estimate) \<longrightarrow>
          heap_pairs s' = heap_pairs s \<and> top_k_items s' = top_k_items s)"
proof -
  note inv = reach_inv [OF assms(1,2)]
  from inv(1) have sh: "1 \<le> w s" "\<forall>row \<in> set (count s). int (length row) = w s"
    "0 + length (hash_functions s) \<le> length (count s)"
    by (auto simp: shape_def)
  from update_rows_cells [OF sh, of hash key 1]
  obtain cnt where cnt: "update_rows hash s key 1 (enumerate 0 (hash_functions s)) = Inr (s\<lparr>count := cnt\<rparr>)"
    "length cnt = length (count s)" "\<forall>row \<in> set cnt. int (length row) = w s"
    by blast
  define s1 where "s1 = s\<lparr>count := cnt\<rparr>"
  have sh1: "shape s1"
    using inv(1) cnt(2,3) by (simp add: shape_def s1_def)
  define e where "e = fold min (cells_of hash s1 key) sys_maxsize"
  have e: "get hash s1 key = Inr e"
    using get_eq [OF sh1] by (simp add: e_def)
  have obs: "observe hash s key = update_heap hash s1 key"
    using cnt(1) by (simp add: observe_def update_def s1_def)
  have f1: "heap s1 = heap s" "top_k s1 = top_k s" "objs s1 = objs s" "k s1 = k s"
    by (simp_all add: s1_def)
  have root: "fst (hd (heap_pairs s)) = fst (objs s ! (heap s ! 0))" if "heap s \<noteq> []"
    using that by (cases "heap s") (simp_all add: heap_pairs_def)
  from inv(2) have tk: "\<forall>(x, r) \<in> set (top_k s). r < length (objs s)"
    and hr: "\<forall>r \<in> set (heap s). r < length (objs s)"
    by (auto simp: cands_def)
  show ?thesis
  proof (cases "heap s = [] \<or> fst (hd (heap_pairs s)) \<le> e")
    case True
    then have gate: "heap s1 = [] \<or> e \<ge> fst (objs s1 ! (heap s1 ! 0))"
      using root by (cases "heap s = []") (simp_all add: f1)
    define os1 where "os1 = objs s @ [(e, key)]"
    define os where "os = os1 @ [(e, key)]"
    define hp where "hp = heappush (pair_lt os1) (heap s) (length (objs s))"
    define tk' where "tk' = AList.update key (length os1) (top_k s)"
    define s' where "s' = s1\<lparr>objs := os, heap := hp, top_k := tk'\<rparr>"
    have eq: "update_heap hash s1 key = Inr s'"
      using gate assms(3,4)
      by (simp add: update_heap_def e Let_def f1 os_def os1_def hp_def tk'_def s'_def)
    have "get hash s' key = get hash s1 key"
      by (rule get_cong) (simp_all add: s'_def)
    then have ge: "get hash s' key = Inr e"
      using e by simp
    have old: "os ! r = objs s ! r" if "r < length (objs s)" for r
      using that by (simp add: os_def os1_def nth_append)
    have new: "os ! length (objs s) = (e, key)" "os ! length os1 = (e, key)"
      by (simp_all add: os_def os1_def nth_append)
    have "mset (heap_pairs s') = image_mset ((!) os) (add_mset (length (objs s)) (mset (heap s)))"
      by (simp add: heap_pairs_def s'_def hp_def)
    also have "\<dots> = add_mset (e, key) (image_mset ((!) os) (mset (heap s)))"
      by (simp add: new)
    also have "image_mset ((!) os) (mset (heap s)) = image_mset ((!) (objs s)) (mset (heap s))"
      using hr old by (intro image_mset_cong) simp
    finally have hpairs: "mset (heap_pairs s') = add_mset (e, key) (mset (heap_pairs s))"
      by (simp add: heap_pairs_def)
    have "top_k_items s' = map (\<lambda>(x, r). (x, os ! r)) (top_k s) @ [(key, (e, key))]"
      using assms(4) new by (simp add: top_k_items_def s'_def tk'_def alist_update_new)
    also have "map (\<lambda>(x, r). (x, os ! r)) (top_k s) = map (\<lambda>(x, r). (x, objs s ! r)) (top_k s)"
      using tk old by (intro map_cong) auto
    finally have items: "top_k_items s' = top_k_items s @ [(key, (e, key))]"
      by (simp add: top_k_items_def)
    show ?thesis
      using True obs eq ge hpairs items by (intro exI [of _ s'] exI [of _ e]) simp
  next
    case False
    then have gate: "\<not> (heap s1 = [] \<or> e \<ge> fst (objs s1 ! (heap s1 ! 0)))"
      using root by (cases "heap s = []") (simp_all add: f1)
    then have eq: "update_heap hash s1 key = Inr s1"
      by (simp add: update_heap_def e)
    have "heap_pairs s1 = heap_pairs s" "top_k_items s1 = top_k_items s"
      by (simp_all add: heap_pairs_def top_k_items_def f1)
    then show ?thesis
      using False obs eq e by (intro exI [of _ s1] exI [of _ e]) simp
  qed
qed

theorem observe_inserts_when_room_witness:
  "\<exists>s'. observe ord_hash (sketch_after_A 2) ''B'' = Inr s'
     \<and> get ord_hash s' ''B'' = Inr 1
     \<and> mset (heap_pairs s') = {#(1, ''B''), (1, ''A'')#}
     \<and> top_k_items s' = [(''A'', (1, ''A'')), (''B'', (1, ''B''))]"
proof -
  have a: "init (1/2) (1/2) 2 rnd1 = Inr (sketch_half 2 rnd1)"
    by (simp add: init_half)
  have b: "run ord_hash (sketch_half 2 rnd1) [(''A'', 1)] = Inr (sketch_after_A 2)"
    by code_simp
  have c: "int (length (top_k (sketch_after_A 2))) < k (sketch_after_A 2)"
    by (simp add: sketch_after_A_def)
  have d: "map_of (top_k (sketch_after_A 2)) ''B'' = None"
    by (simp add: sketch_after_A_def)
  have f: "increments_fit [(''A'', 1)]"
    by (simp add: increments_fit_def)
  from observe_inserts_when_room [OF a b c d f]
  obtain s' estimate where s': "observe ord_hash (sketch_after_A 2) ''B'' = Inr s'"
    "get ord_hash s' ''B'' = Inr estimate"
    "heap (sketch_after_A 2) = [] \<or> fst (hd (heap_pairs (sketch_after_A 2))) \<le> estimate \<Longrightarrow>
       mset (heap_pairs s') = add_mset (estimate, ''B'') (mset (heap_pairs (sketch_after_A 2)))
       \<and> top_k_items s' = top_k_items (sketch_after_A 2) @ [(''B'', (estimate, ''B''))]"
    by blast
  have o: "observe ord_hash (sketch_after_A 2) ''B''
    = Inr \<lparr>w = 6, d = 1, k = 2, hash_functions = [(1, 1)],
          count = [[1, 1, 0, 0, 0, 0]], heap = [0, 2],
          top_k = [(''A'', 1), (''B'', 3)],
          objs = [(1, ''A''), (1, ''A''), (1, ''B''), (1, ''B'')]\<rparr>"
    by code_simp
  have g: "get ord_hash \<lparr>w = 6, d = 1, k = 2, hash_functions = [(1, 1)],
          count = [[1, 1, 0, 0, 0, 0]], heap = [0, 2],
          top_k = [(''A'', 1), (''B'', 3)],
          objs = [(1, ''A''), (1, ''A''), (1, ''B''), (1, ''B'')]\<rparr> ''B'' = Inr 1"
    by code_simp
  from s'(1,2) o g have e: "estimate = 1" by simp
  have "fst (hd (heap_pairs (sketch_after_A 2))) \<le> estimate"
    by (simp add: e heap_pairs_def sketch_after_A_def)
  from s'(3) [OF disjI2, OF this]
  have "mset (heap_pairs s') = {#(1, ''B''), (1, ''A'')#}"
    "top_k_items s' = [(''A'', (1, ''A'')), (''B'', (1, ''B''))]"
    by (simp_all add: e heap_pairs_def top_k_items_def sketch_after_A_def)
  with s'(1,2) e show ?thesis by blast
qed

end
